theory Spec2Isabelle
  imports Main "HOL-Library.Word"
begin

section \<open>The buffer pool of db\_445: data model\<close>

text \<open>
  The sources hold two revisions of the buffer pool. The development follows the
  current one: \<^verbatim>\<open>src/buffer/lru_replacer.cpp\<close> with
  \<^verbatim>\<open>src/include/buffer/lru_replacer.h\<close>, the first \<^verbatim>\<open>BufferPoolManagerInstance\<close> of
  \<^verbatim>\<open>src/buffer/buffer_pool_manager_instance.cpp\<close> (lines 20 to 261) and the
  \<^verbatim>\<open>ParallelBufferPoolManager\<close> that holds \<^verbatim>\<open>next_index_\<close>, \<^verbatim>\<open>each_pool_size_\<close> and a
  latch (lines 629 to 711 of the same file). They share their style (\<^verbatim>\<open>std::\<close>
  written out, members such as \<^verbatim>\<open>cache_\<close> and \<^verbatim>\<open>AddToFirst\<close> as the header declares
  them). The earlier revision kept beside them (the instance at lines 283 to 506, the
  parallel manager with \<^verbatim>\<open>startIdx\<close> at lines 526 to 609, a replacer without latch at
  lines 732 to 843) is embedded in a section of its own, for comparison.

  C++ member names end in an underscore, which Isabelle does not accept in a constant's
  name: \<^verbatim>\<open>cache_\<close> is \<open>cache\<close>, \<^verbatim>\<open>pin_count_\<close> is \<open>pin_count\<close> and so on. The
  parameters \<^verbatim>\<open>page_id\<close> and \<^verbatim>\<open>is_dirty\<close> of the member functions are \<open>pid\<close> and
  \<open>dirty\<close>, since the fields of \<^verbatim>\<open>Page\<close> take their names.

  \<^item> \<^verbatim>\<open>page_id_t\<close> is \<^verbatim>\<open>int32_t\<close>. The allocation counter is advanced by a
    \<^verbatim>\<open>uint32_t\<close> and checked with an unsigned remainder, so a page id is a 32-bit word:
    \<open>+\<close> wraps and \<open>mod\<close> is the unsigned remainder.
  \<^item> \<^verbatim>\<open>frame_id_t\<close> values are indices into \<^verbatim>\<open>pages_\<close>, modelled as \<open>nat\<close>. An index
    outside the array is undefined behaviour in C++ and the fault \<open>OutOfBounds\<close> here.
  \<^item> \<^verbatim>\<open>pin_count_\<close> is a 32-bit \<^verbatim>\<open>int\<close>, modelled as an \<open>int\<close> with the
    wrap-around written out where the code can overflow: \<^verbatim>\<open>pin_count_++\<close> in
    \<^verbatim>\<open>FetchPgImp\<close> takes 2147483647 to -2147483648 (\<open>int32\<close> below). The only other
    arithmetic on it, \<^verbatim>\<open>pin_count_ -= 1\<close>, is applied to a positive count.
  \<^item> \<^verbatim>\<open>assert\<close> and \<^verbatim>\<open>BUSTUB_ASSERT\<close> abort the process: the fault
    \<open>AssertionFailure\<close>.
  \<^item> The latches serialise the member functions; each function is modelled as one
    atomic transition of the state.
\<close>

type_synonym page_id_t = "32 word"
type_synonym frame_id_t = nat
type_synonym page_data = "8 word list"

datatype fault = AssertionFailure | NullPointer | OutOfBounds

text \<open>
  Modelled from the spec: \<^verbatim>\<open>common/config.h\<close> is not part of the sources at hand. The
  spec gives a frame a fixed-size byte buffer, "e.g. 4096 bytes", and a resident page
  identifier that is "none" for a free frame; BusTub writes the latter as \<open>-1\<close>.
\<close>

definition BUSTUB_PAGE_SIZE :: nat where
  "BUSTUB_PAGE_SIZE = 4096"

definition INVALID_PAGE_ID :: page_id_t where
  "INVALID_PAGE_ID = - 1"

text \<open>
  The value a 32-bit \<^verbatim>\<open>int\<close> holds after an arithmetic step whose exact result is \<open>x\<close>:
  two's complement wrap-around, what the compiled increment does.
\<close>

definition int32 :: "int \<Rightarrow> int" where
  "int32 x = (x + 2147483648) mod 4294967296 - 2147483648"

record Page =
  data :: page_data
  page_id :: page_id_t
  pin_count :: int
  is_dirty :: bool

text \<open>
  Modelled from the spec: \<^verbatim>\<open>storage/page/page.h\<close> is not part of the sources at hand.
  \<^verbatim>\<open>ResetMemory\<close> zeroes the bytes of the frame and nothing else (the callers set
  \<^verbatim>\<open>page_id_\<close>, \<^verbatim>\<open>pin_count_\<close> and \<^verbatim>\<open>is_dirty_\<close> themselves after calling it), and a
  frame starts out free: no page, no pin, clean, zeroed.
\<close>

definition ResetMemory :: "Page \<Rightarrow> Page" where
  "ResetMemory p = p\<lparr>data := replicate BUSTUB_PAGE_SIZE 0\<rparr>"

definition Page_new :: Page where
  "Page_new = \<lparr>data = replicate BUSTUB_PAGE_SIZE 0, page_id = INVALID_PAGE_ID,
               pin_count = 0, is_dirty = False\<rparr>"

text \<open>
  Modelled from the spec: the disk collaborator (\<^verbatim>\<open>DiskManager\<close>) is external.
  \<^verbatim>\<open>write_page\<close> persists the bytes, \<^verbatim>\<open>read_page\<close> returns the persisted bytes
  (whatever the disk holds when the page was never written), and deleting a page tells
  the collaborator that the slot of the page id may be reclaimed. The two logs record
  the calls, so that "no disk write occurs" is a statement about \<open>write_log\<close>.
\<close>

record DiskManager =
  stored :: "page_id_t \<Rightarrow> page_data"
  write_log :: "(page_id_t \<times> page_data) list"
  deallocated :: "page_id_t list"

definition WritePage :: "page_id_t \<Rightarrow> page_data \<Rightarrow> DiskManager \<Rightarrow> DiskManager" where
  "WritePage pid bytes d =
     d\<lparr>stored := (stored d)(pid := bytes), write_log := write_log d @ [(pid, bytes)]\<rparr>"

definition ReadPage :: "page_id_t \<Rightarrow> DiskManager \<Rightarrow> page_data" where
  "ReadPage pid d = stored d pid"

definition DeallocatePage :: "page_id_t \<Rightarrow> DiskManager \<Rightarrow> DiskManager" where
  "DeallocatePage pid d = d\<lparr>deallocated := deallocated d @ [pid]\<rparr>"

section \<open>The LRU replacer\<close>

text \<open>
  \<^verbatim>\<open>LRUReplacer\<close> keeps a doubly linked list between the sentinels \<^verbatim>\<open>head_\<close> and
  \<^verbatim>\<open>tail_\<close> and an \<^verbatim>\<open>unordered_map\<close> \<^verbatim>\<open>cache_\<close> from a frame id to its node.
  \<open>head_to_tail\<close> is the list of the \<^verbatim>\<open>val_\<close> of the nodes strictly between the
  sentinels, from \<^verbatim>\<open>head_->next_\<close> to \<^verbatim>\<open>tail_->prev_\<close>; \<open>cache\<close> is the key set of
  \<^verbatim>\<open>cache_\<close>. A node is identified by its \<^verbatim>\<open>val_\<close>: \<^verbatim>\<open>cache_[frame_id]\<close> is always
  set to a node made for \<^verbatim>\<open>frame_id\<close>.
\<close>

record LRUReplacer =
  cache :: "frame_id_t set"
  capacity :: nat
  head_to_tail :: "frame_id_t list"

definition LRUReplacer_new :: "nat \<Rightarrow> LRUReplacer" where
  "LRUReplacer_new num_pages = \<lparr>cache = {}, capacity = num_pages, head_to_tail = []\<rparr>"

definition AddToFirst :: "frame_id_t \<Rightarrow> LRUReplacer \<Rightarrow> LRUReplacer" where
  "AddToFirst node r = r\<lparr>head_to_tail := node # head_to_tail r\<rparr>"

definition RemoveOne :: "frame_id_t \<Rightarrow> LRUReplacer \<Rightarrow> LRUReplacer" where
  "RemoveOne node r = r\<lparr>head_to_tail := remove1 node (head_to_tail r)\<rparr>"

text \<open>
  With no node between the sentinels \<^verbatim>\<open>tail_->prev_\<close> is \<^verbatim>\<open>head_\<close>, and
  \<^verbatim>\<open>RemoveOne(head_)\<close> dereferences \<^verbatim>\<open>head_->prev_\<close>, a null pointer.
\<close>

definition RemoveLast :: "LRUReplacer \<Rightarrow> fault + (frame_id_t \<times> LRUReplacer)" where
  "RemoveLast r =
     (if head_to_tail r = [] then Inl NullPointer
      else Inr (last (head_to_tail r), r\<lparr>head_to_tail := butlast (head_to_tail r)\<rparr>))"

definition Victim :: "LRUReplacer \<Rightarrow> fault + (frame_id_t option \<times> LRUReplacer)" where
  "Victim r =
     (if cache r = {} then Inr (None, r)
      else case RemoveLast r of
             Inl e \<Rightarrow> Inl e
           | Inr (lst, r') \<Rightarrow> Inr (Some lst, r'\<lparr>cache := cache r' - {lst}\<rparr>))"

definition Pin :: "frame_id_t \<Rightarrow> LRUReplacer \<Rightarrow> LRUReplacer" where
  "Pin frame_id r =
     (if frame_id \<notin> cache r then r
      else (RemoveOne frame_id r)\<lparr>cache := cache r - {frame_id}\<rparr>)"

definition Unpin :: "frame_id_t \<Rightarrow> LRUReplacer \<Rightarrow> fault + LRUReplacer" where
  "Unpin frame_id r =
     (if frame_id \<in> cache r then Inr r
      else if capacity r \<le> card (cache r) then
        (case RemoveLast r of
           Inl e \<Rightarrow> Inl e
         | Inr (lst, r') \<Rightarrow>
             let r'' = AddToFirst frame_id (r'\<lparr>cache := cache r' - {lst}\<rparr>)
             in Inr (r''\<lparr>cache := insert frame_id (cache r'')\<rparr>))
      else
        (let r'' = AddToFirst frame_id r
         in Inr (r''\<lparr>cache := insert frame_id (cache r'')\<rparr>)))"

definition Size :: "LRUReplacer \<Rightarrow> nat" where
  "Size r = card (cache r)"


section \<open>The buffer pool manager instance\<close>

text \<open>
  \<^verbatim>\<open>pool_size_\<close> is constant and \<^verbatim>\<open>pages_\<close> is allocated once with \<^verbatim>\<open>pool_size_\<close>
  elements, so the pool size is read off the array. The disk manager is shared by all
  instances of a parallel pool; it is passed to each member function and returned.
  A returned \<^verbatim>\<open>Page *\<close> is the index of the frame it points to, \<^verbatim>\<open>nullptr\<close> is \<open>None\<close>.
\<close>

record BufferPoolManagerInstance =
  num_instances :: "32 word"
  instance_index :: "32 word"
  next_page_id :: page_id_t
  pages :: "Page list"
  replacer :: LRUReplacer
  free_list :: "frame_id_t list"
  page_table :: "page_id_t \<rightharpoonup> frame_id_t"

definition pool_size :: "BufferPoolManagerInstance \<Rightarrow> nat" where
  "pool_size s = length (pages s)"

definition BufferPoolManagerInstance_new ::
  "nat \<Rightarrow> 32 word \<Rightarrow> 32 word \<Rightarrow> fault + BufferPoolManagerInstance" where
  "BufferPoolManagerInstance_new psize n_instances inst_index =
     (if \<not> 0 < n_instances then Inl AssertionFailure
      else if \<not> inst_index < n_instances then Inl AssertionFailure
      else Inr \<lparr>num_instances = n_instances, instance_index = inst_index,
                next_page_id = inst_index, pages = replicate psize Page_new,
                replacer = LRUReplacer_new psize, free_list = [0..<psize],
                page_table = Map.empty\<rparr>)"

text \<open>
  \<^verbatim>\<open>ValidatePageId\<close> computes \<^verbatim>\<open>page_id % num_instances_\<close> with \<^verbatim>\<open>num_instances_\<close> a
  \<^verbatim>\<open>uint32_t\<close>: the remainder is unsigned. The constructor has asserted
  \<^verbatim>\<open>num_instances > 0\<close>.
\<close>

definition ValidatePageId :: "page_id_t \<Rightarrow> BufferPoolManagerInstance \<Rightarrow> bool" where
  "ValidatePageId pid s = (pid mod num_instances s = instance_index s)"

definition AllocatePage ::
  "BufferPoolManagerInstance \<Rightarrow> fault + (page_id_t \<times> BufferPoolManagerInstance)" where
  "AllocatePage s =
     (let nxt = next_page_id s;
          s' = s\<lparr>next_page_id := next_page_id s + num_instances s\<rparr>
      in if ValidatePageId nxt s' then Inr (nxt, s') else Inl AssertionFailure)"

text \<open>
  \<open>acquire_frame\<close> is the block that \<^verbatim>\<open>NewPgImp\<close> and \<^verbatim>\<open>FetchPgImp\<close> both open with:
  the front of the free list if there is one, otherwise the replacer's victim,
  otherwise \<^verbatim>\<open>return nullptr\<close>.
\<close>

definition acquire_frame ::
  "BufferPoolManagerInstance \<Rightarrow> fault + (frame_id_t option \<times> BufferPoolManagerInstance)" where
  "acquire_frame s =
     (case free_list s of
        frame_id # rest \<Rightarrow> Inr (Some frame_id, s\<lparr>free_list := rest\<rparr>)
      | [] \<Rightarrow>
          (case Victim (replacer s) of
             Inl e \<Rightarrow> Inl e
           | Inr (None, r) \<Rightarrow> Inr (None, s\<lparr>replacer := r\<rparr>)
           | Inr (Some frame_id, r) \<Rightarrow> Inr (Some frame_id, s\<lparr>replacer := r\<rparr>)))"

definition write_back :: "Page \<Rightarrow> DiskManager \<Rightarrow> DiskManager" where
  "write_back p d = (if is_dirty p then WritePage (page_id p) (data p) d else d)"

definition FlushPgImp ::
  "page_id_t \<Rightarrow> BufferPoolManagerInstance \<Rightarrow> DiskManager
     \<Rightarrow> fault + (bool \<times> BufferPoolManagerInstance \<times> DiskManager)" where
  "FlushPgImp pid s d =
     (case page_table s pid of
        None \<Rightarrow> Inr (False, s, d)
      | Some frame_id \<Rightarrow>
          if \<not> frame_id < length (pages s) then Inl OutOfBounds
          else
            let page = pages s ! frame_id in
            if is_dirty page
            then Inr (True, s\<lparr>pages := (pages s)[frame_id := page\<lparr>is_dirty := False\<rparr>]\<rparr>,
                      WritePage pid (data page) d)
            else Inr (True, s, d))"

definition flush_frame :: "nat \<Rightarrow> Page list \<times> DiskManager \<Rightarrow> Page list \<times> DiskManager" where
  "flush_frame i = (\<lambda>(ps, d).
     if is_dirty (ps ! i)
     then (ps[i := (ps ! i)\<lparr>is_dirty := False\<rparr>], WritePage (page_id (ps ! i)) (data (ps ! i)) d)
     else (ps, d))"

definition FlushAllPgsImp ::
  "BufferPoolManagerInstance \<Rightarrow> DiskManager
     \<Rightarrow> fault + (unit \<times> BufferPoolManagerInstance \<times> DiskManager)" where
  "FlushAllPgsImp s d =
     (case fold flush_frame [0..<pool_size s] (pages s, d) of
        (ps, d') \<Rightarrow> Inr ((), s\<lparr>pages := ps\<rparr>, d'))"

definition NewPgImp ::
  "BufferPoolManagerInstance \<Rightarrow> DiskManager
     \<Rightarrow> fault + ((page_id_t \<times> frame_id_t) option \<times> BufferPoolManagerInstance \<times> DiskManager)" where
  "NewPgImp s d =
     (case acquire_frame s of
        Inl e \<Rightarrow> Inl e
      | Inr (None, s1) \<Rightarrow> Inr (None, s1, d)
      | Inr (Some frame_id, s1) \<Rightarrow>
          if \<not> frame_id < length (pages s1) then Inl OutOfBounds
          else
            let ret = pages s1 ! frame_id in
            (case AllocatePage s1 of
               Inl e \<Rightarrow> Inl e
             | Inr (new_page_id, s2) \<Rightarrow>
                 Inr (Some (new_page_id, frame_id),
                      s2\<lparr>page_table := ((page_table s2)(page_id ret := None))(new_page_id \<mapsto> frame_id),
                         pages := (pages s2)[frame_id :=
                           (ResetMemory ret)\<lparr>page_id := new_page_id, pin_count := 1,
                                              is_dirty := False\<rparr>]\<rparr>,
                      write_back ret d)))"

definition FetchPgImp ::
  "page_id_t \<Rightarrow> BufferPoolManagerInstance \<Rightarrow> DiskManager
     \<Rightarrow> fault + (frame_id_t option \<times> BufferPoolManagerInstance \<times> DiskManager)" where
  "FetchPgImp pid s d =
     (case page_table s pid of
        Some frame_id \<Rightarrow>
          if \<not> frame_id < length (pages s) then Inl OutOfBounds
          else
            let ret = pages s ! frame_id in
            Inr (Some frame_id,
                 s\<lparr>replacer := Pin frame_id (replacer s),
                   pages := (pages s)[frame_id := ret\<lparr>pin_count := int32 (pin_count ret + 1)\<rparr>]\<rparr>,
                 d)
      | None \<Rightarrow>
          (case acquire_frame s of
             Inl e \<Rightarrow> Inl e
           | Inr (None, s1) \<Rightarrow> Inr (None, s1, d)
           | Inr (Some frame_id, s1) \<Rightarrow>
               if \<not> frame_id < length (pages s1) then Inl OutOfBounds
               else
                 let ret = pages s1 ! frame_id;
                     d1 = write_back ret d
                 in Inr (Some frame_id,
                         s1\<lparr>page_table := ((page_table s1)(page_id ret := None))(pid \<mapsto> frame_id),
                            pages := (pages s1)[frame_id :=
                              ret\<lparr>data := ReadPage pid d1, pin_count := 1, is_dirty := False,
                                  page_id := pid\<rparr>]\<rparr>,
                         d1)))"

definition DeletePgImp ::
  "page_id_t \<Rightarrow> BufferPoolManagerInstance \<Rightarrow> DiskManager
     \<Rightarrow> fault + (bool \<times> BufferPoolManagerInstance \<times> DiskManager)" where
  "DeletePgImp pid s d =
     (let d1 = DeallocatePage pid d in
      case page_table s pid of
        None \<Rightarrow> Inr (True, s, d1)
      | Some frame_id \<Rightarrow>
          if \<not> frame_id < length (pages s) then Inl OutOfBounds
          else
            let p = pages s ! frame_id in
            if 0 < pin_count p then Inr (False, s, d1)
            else Inr (True,
                      s\<lparr>page_table := (page_table s)(pid := None),
                        replacer := Pin frame_id (replacer s),
                        pages := (pages s)[frame_id := (ResetMemory p)\<lparr>is_dirty := False\<rparr>],
                        free_list := free_list s @ [frame_id]\<rparr>,
                      d1))"

definition UnpinPgImp ::
  "page_id_t \<Rightarrow> bool \<Rightarrow> BufferPoolManagerInstance
     \<Rightarrow> fault + (bool \<times> BufferPoolManagerInstance)" where
  "UnpinPgImp pid dirty s =
     (case page_table s pid of
        None \<Rightarrow> Inr (False, s)
      | Some frame_id \<Rightarrow>
          if \<not> frame_id < length (pages s) then Inl OutOfBounds
          else
            let p = (pages s ! frame_id)\<lparr>is_dirty := is_dirty (pages s ! frame_id) \<or> dirty\<rparr>;
                s1 = s\<lparr>pages := (pages s)[frame_id := p]\<rparr>
            in
            if pin_count p \<le> 0 then Inr (False, s1)
            else
              let p' = p\<lparr>pin_count := pin_count p - 1\<rparr>;
                  s2 = s1\<lparr>pages := (pages s1)[frame_id := p']\<rparr>
              in
              if pin_count p' = 0 then
                (case Unpin frame_id (replacer s2) of
                   Inl e \<Rightarrow> Inl e
                 | Inr r \<Rightarrow> Inr (True, s2\<lparr>replacer := r\<rparr>))
              else Inr (True, s2))"

section \<open>Sequences of public operations\<close>

datatype operation =
    Fetch page_id_t
  | New
  | UnpinOp page_id_t bool
  | Delete page_id_t
  | Flush page_id_t
  | FlushAll

datatype outcome =
    Frame "frame_id_t option"
  | Created "(page_id_t \<times> frame_id_t) option"
  | Flag bool
  | Done

fun step ::
  "operation \<Rightarrow> BufferPoolManagerInstance \<Rightarrow> DiskManager
     \<Rightarrow> fault + (outcome \<times> BufferPoolManagerInstance \<times> DiskManager)" where
  "step (Fetch pid) s d =
     (case FetchPgImp pid s d of Inl e \<Rightarrow> Inl e | Inr (r, s', d') \<Rightarrow> Inr (Frame r, s', d'))"
| "step New s d =
     (case NewPgImp s d of Inl e \<Rightarrow> Inl e | Inr (r, s', d') \<Rightarrow> Inr (Created r, s', d'))"
| "step (UnpinOp pid dirty) s d =
     (case UnpinPgImp pid dirty s of Inl e \<Rightarrow> Inl e | Inr (r, s') \<Rightarrow> Inr (Flag r, s', d))"
| "step (Delete pid) s d =
     (case DeletePgImp pid s d of Inl e \<Rightarrow> Inl e | Inr (r, s', d') \<Rightarrow> Inr (Flag r, s', d'))"
| "step (Flush pid) s d =
     (case FlushPgImp pid s d of Inl e \<Rightarrow> Inl e | Inr (r, s', d') \<Rightarrow> Inr (Flag r, s', d'))"
| "step FlushAll s d =
     (case FlushAllPgsImp s d of Inl e \<Rightarrow> Inl e | Inr (r, s', d') \<Rightarrow> Inr (Done, s', d'))"

text \<open>A sequence of calls stops at the first fault, as the process would.\<close>

fun run ::
  "operation list \<Rightarrow> BufferPoolManagerInstance \<Rightarrow> DiskManager
     \<Rightarrow> fault + (outcome list \<times> BufferPoolManagerInstance \<times> DiskManager)" where
  "run [] s d = Inr ([], s, d)"
| "run (x # xs) s d =
     (case step x s d of
        Inl e \<Rightarrow> Inl e
      | Inr (r, s', d') \<Rightarrow>
          (case run xs s' d' of
             Inl e \<Rightarrow> Inl e
           | Inr (rs, s'', d'') \<Rightarrow> Inr (r # rs, s'', d'')))"

text \<open>A disk on which every page is zeroed and nothing has been written yet.\<close>

definition blank_disk :: DiskManager where
  "blank_disk = \<lparr>stored = (\<lambda>_. replicate BUSTUB_PAGE_SIZE 0), write_log = [], deallocated = []\<rparr>"

text \<open>
  The frames a page-table entry points to, and the third invariant of the data model:
  a frame is in the replacer's evictable set exactly when it is mapped in the page table
  and its pin count is 0.
\<close>

definition mapped :: "BufferPoolManagerInstance \<Rightarrow> frame_id_t \<Rightarrow> bool" where
  "mapped s f = (f \<in> ran (page_table s))"

definition evictable_iff_unpinned :: "BufferPoolManagerInstance \<Rightarrow> bool" where
  "evictable_iff_unpinned s =
     (\<forall>f. f \<in> cache (replacer s) \<longleftrightarrow> f < length (pages s) \<and> mapped s f \<and> pin_count (pages s ! f) = 0)"

text \<open>
  The structural invariant of an instance: the replacer's list and index agree, and
  every frame id held by the free list, the replacer or the page table is an index of
  \<^verbatim>\<open>pages_\<close>. The replacer was built with the pool size as its capacity.
\<close>

definition replacer_ok :: "LRUReplacer \<Rightarrow> bool" where
  "replacer_ok r = (set (head_to_tail r) = cache r \<and> distinct (head_to_tail r))"

definition frames_ok :: "BufferPoolManagerInstance \<Rightarrow> bool" where
  "frames_ok s =
     (replacer_ok (replacer s)
      \<and> capacity (replacer s) = length (pages s)
      \<and> cache (replacer s) \<subseteq> {..<length (pages s)}
      \<and> set (free_list s) \<subseteq> {..<length (pages s)}
      \<and> ran (page_table s) \<subseteq> {..<length (pages s)})"

text \<open>
  The fourth invariant of the data model: every page id in the page table maps to a
  frame whose \<^verbatim>\<open>page_id_\<close> is that id. No two entries then point to the same frame.
\<close>

definition table_consistent :: "BufferPoolManagerInstance \<Rightarrow> bool" where
  "table_consistent s = (\<forall>q g. page_table s q = Some g \<longrightarrow> page_id (pages s ! g) = q)"



text \<open>
  Counting the pins of page \<open>pid\<close> along a sequence of operations, from \<open>c\<close>: one more
  for each fetch of the page, one less for each unpin of the page that finds a pin (an
  unpin at 0 is rejected by \<^verbatim>\<open>UnpinPgImp\<close> and counts nothing).
\<close>

fun pins_after :: "page_id_t \<Rightarrow> nat \<Rightarrow> operation list \<Rightarrow> nat" where
  "pins_after pid c [] = c"
| "pins_after pid c (Fetch q # ops) = pins_after pid (if q = pid then c + 1 else c) ops"
| "pins_after pid c (UnpinOp q b # ops) = pins_after pid (if q = pid then c - 1 else c) ops"
| "pins_after pid c (x # ops) = pins_after pid c ops"

text \<open>The page ids that the calls of \<^verbatim>\<open>NewPage\<close> in a sequence returned, in order.\<close>

fun created :: "outcome list \<Rightarrow> page_id_t list" where
  "created [] = []"
| "created (Created (Some (pid, f)) # rs) = pid # created rs"
| "created (r # rs) = created rs"

section \<open>The parallel buffer pool manager\<close>

text \<open>
  \<^verbatim>\<open>instances_\<close> holds shared pointers to the instances; the manager is their only
  owner, so the vector is a list of instance states. The one \<^verbatim>\<open>DiskManager\<close> all of
  them point to is passed along. The constructor converts \<^verbatim>\<open>size_t\<close> to the
  \<^verbatim>\<open>uint32_t\<close> parameters of the instance's constructor.
\<close>

record ParallelBufferPoolManager =
  instances :: "BufferPoolManagerInstance list"
  next_index :: nat
  each_pool_size :: nat
  num_instance :: nat

fun push_instances ::
  "nat \<Rightarrow> nat \<Rightarrow> nat list \<Rightarrow> BufferPoolManagerInstance list
     \<Rightarrow> fault + BufferPoolManagerInstance list" where
  "push_instances psize n [] acc = Inr acc"
| "push_instances psize n (i # rest) acc =
     (case BufferPoolManagerInstance_new psize (of_nat n) (of_nat i) of
        Inl e \<Rightarrow> Inl e
      | Inr b \<Rightarrow> push_instances psize n rest (acc @ [b]))"

definition ParallelBufferPoolManager_new ::
  "nat \<Rightarrow> nat \<Rightarrow> fault + ParallelBufferPoolManager" where
  "ParallelBufferPoolManager_new n_instances psize =
     (case push_instances psize n_instances [0..<n_instances] [] of
        Inl e \<Rightarrow> Inl e
      | Inr bs \<Rightarrow> Inr \<lparr>instances = bs, next_index = 0, each_pool_size = psize,
                        num_instance = n_instances\<rparr>)"

definition GetPoolSize :: "ParallelBufferPoolManager \<Rightarrow> nat" where
  "GetPoolSize m = length (instances m) * each_pool_size m"

text \<open>
  The loop of \<^verbatim>\<open>ParallelBufferPoolManager::NewPgImp\<close>: the first argument counts the
  iterations that remain (\<^verbatim>\<open>num_instance_ - index\<close>). Each iteration calls
  \<^verbatim>\<open>NewPage\<close> on \<^verbatim>\<open>instances_[next_index_]\<close>, steps \<^verbatim>\<open>next_index_\<close> and then looks
  at the page.
\<close>

primrec NewPgImp_loop ::
  "nat \<Rightarrow> ParallelBufferPoolManager \<Rightarrow> DiskManager
     \<Rightarrow> fault + ((page_id_t \<times> frame_id_t) option \<times> ParallelBufferPoolManager \<times> DiskManager)" where
  "NewPgImp_loop 0 m d = Inr (None, m, d)"
| "NewPgImp_loop (Suc k) m d =
     (if \<not> next_index m < length (instances m) then Inl OutOfBounds
      else
        case NewPgImp (instances m ! next_index m) d of
          Inl e \<Rightarrow> Inl e
        | Inr (page, bfi, d') \<Rightarrow>
            let m' = m\<lparr>instances := (instances m)[next_index m := bfi],
                       next_index := (next_index m + 1) mod num_instance m\<rparr>
            in (case page of
                  Some pg \<Rightarrow> Inr (Some pg, m', d')
                | None \<Rightarrow> NewPgImp_loop k m' d'))"

definition Parallel_NewPgImp ::
  "ParallelBufferPoolManager \<Rightarrow> DiskManager
     \<Rightarrow> fault + ((page_id_t \<times> frame_id_t) option \<times> ParallelBufferPoolManager \<times> DiskManager)" where
  "Parallel_NewPgImp m d = NewPgImp_loop (num_instance m) m d"

text \<open>
  The indices of \<^verbatim>\<open>instances_\<close> on which the loop of \<^verbatim>\<open>NewPgImp\<close> calls \<^verbatim>\<open>NewPage\<close>, in
  the order of the calls: the same loop, recording \<^verbatim>\<open>next_index_\<close> at each iteration
  instead of returning the page.
\<close>

primrec NewPgImp_tried :: "nat \<Rightarrow> ParallelBufferPoolManager \<Rightarrow> DiskManager \<Rightarrow> nat list" where
  "NewPgImp_tried 0 m d = []"
| "NewPgImp_tried (Suc k) m d =
     (if \<not> next_index m < length (instances m) then []
      else
        case NewPgImp (instances m ! next_index m) d of
          Inl e \<Rightarrow> [next_index m]
        | Inr (page, bfi, d') \<Rightarrow>
            let m' = m\<lparr>instances := (instances m)[next_index m := bfi],
                       next_index := (next_index m + 1) mod num_instance m\<rparr>
            in (case page of
                  Some pg \<Rightarrow> [next_index m]
                | None \<Rightarrow> next_index m # NewPgImp_tried k m' d'))"

text \<open>An instance that cannot acquire a frame: no free frame, nothing tracked.\<close>

definition exhausted :: "BufferPoolManagerInstance \<Rightarrow> bool" where
  "exhausted b = (free_list b = [] \<and> cache (replacer b) = {})"

text \<open>
  The invariant of the parallel manager: \<^verbatim>\<open>num_instance_\<close> instances, each with
  \<^verbatim>\<open>each_pool_size_\<close> frames and structurally sound, and a cursor that is an index of
  \<^verbatim>\<open>instances_\<close>.
\<close>

definition shards_ok :: "ParallelBufferPoolManager \<Rightarrow> bool" where
  "shards_ok m =
     (length (instances m) = num_instance m
      \<and> (next_index m < num_instance m \<or> num_instance m = 0 \<and> next_index m = 0)
      \<and> (\<forall>b \<in> set (instances m). frames_ok b \<and> pool_size b = each_pool_size m))"

section \<open>The earlier revision\<close>

text \<open>
  The second \<^verbatim>\<open>BufferPoolManagerInstance\<close> and the first \<^verbatim>\<open>ParallelBufferPoolManager\<close>
  kept in \<^verbatim>\<open>buffer_pool_manager_instance.cpp\<close> (they write \<^verbatim>\<open>lock_guard<mutex>\<close> and
  \<^verbatim>\<open>startIdx\<close>) differ from the current ones in the functions below; no theorem on
  the current revision depends on them. \<^verbatim>\<open>tryGetPageFromFreeListOrLRU\<close> ignores the
  result of \<^verbatim>\<open>Victim\<close>: were it false, the frame id would be read uninitialised, which
  is the fault in the branch that \<^verbatim>\<open>Size() == 0\<close> has excluded.
\<close>

definition tryGetPageFromFreeListOrLRU ::
  "BufferPoolManagerInstance \<Rightarrow> fault + (frame_id_t option \<times> BufferPoolManagerInstance)" where
  "tryGetPageFromFreeListOrLRU s =
     (case free_list s of
        frame_id # rest \<Rightarrow> Inr (Some frame_id, s\<lparr>free_list := rest\<rparr>)
      | [] \<Rightarrow>
          if Size (replacer s) = 0 then Inr (None, s)
          else
            (case Victim (replacer s) of
               Inl e \<Rightarrow> Inl e
             | Inr (None, r) \<Rightarrow> Inl OutOfBounds
             | Inr (Some frame_id, r) \<Rightarrow> Inr (Some frame_id, s\<lparr>replacer := r\<rparr>)))"

definition NewPgImp_earlier ::
  "BufferPoolManagerInstance \<Rightarrow> DiskManager
     \<Rightarrow> fault + ((page_id_t \<times> frame_id_t) option \<times> BufferPoolManagerInstance \<times> DiskManager)" where
  "NewPgImp_earlier s d =
     (case AllocatePage s of
        Inl e \<Rightarrow> Inl e
      | Inr (new_page_id, s1) \<Rightarrow>
          (case tryGetPageFromFreeListOrLRU s1 of
             Inl e \<Rightarrow> Inl e
           | Inr (None, s2) \<Rightarrow> Inr (None, s2, d)
           | Inr (Some frameId, s2) \<Rightarrow>
               if \<not> frameId < length (pages s2) then Inl OutOfBounds
               else
                 let ret = pages s2 ! frameId in
                 Inr (Some (new_page_id, frameId),
                      s2\<lparr>page_table := ((page_table s2)(page_id ret := None))(new_page_id \<mapsto> frameId),
                         pages := (pages s2)[frameId :=
                           (ResetMemory ret)\<lparr>page_id := new_page_id, pin_count := 1,
                                              is_dirty := False\<rparr>]\<rparr>,
                      write_back ret d)))"

definition FetchPgImp_earlier ::
  "page_id_t \<Rightarrow> BufferPoolManagerInstance \<Rightarrow> DiskManager
     \<Rightarrow> fault + (frame_id_t option \<times> BufferPoolManagerInstance \<times> DiskManager)" where
  "FetchPgImp_earlier pid s d =
     (case page_table s pid of
        Some frameId \<Rightarrow>
          if \<not> frameId < length (pages s) then Inl OutOfBounds else Inr (Some frameId, s, d)
      | None \<Rightarrow>
          (case tryGetPageFromFreeListOrLRU s of
             Inl e \<Rightarrow> Inl e
           | Inr (None, s1) \<Rightarrow> Inr (None, s1, d)
           | Inr (Some frameId, s1) \<Rightarrow>
               if \<not> frameId < length (pages s1) then Inl OutOfBounds
               else
                 let ret = pages s1 ! frameId;
                     d1 = write_back ret d
                 in Inr (Some frameId,
                         s1\<lparr>page_table := ((page_table s1)(page_id ret := None))(pid \<mapsto> frameId),
                            pages := (pages s1)[frameId :=
                              ret\<lparr>data := ReadPage pid d1, pin_count := 1, is_dirty := False,
                                  page_id := pid\<rparr>]\<rparr>,
                         d1)))"

definition DeletePgImp_earlier ::
  "page_id_t \<Rightarrow> BufferPoolManagerInstance \<Rightarrow> DiskManager
     \<Rightarrow> fault + (bool \<times> BufferPoolManagerInstance \<times> DiskManager)" where
  "DeletePgImp_earlier pid s d =
     (let d1 = DeallocatePage pid d in
      case page_table s pid of
        None \<Rightarrow> Inr (True, s, d1)
      | Some frameId \<Rightarrow>
          if \<not> frameId < length (pages s) then Inl OutOfBounds
          else
            let p = pages s ! frameId in
            if 0 < pin_count p then Inr (False, s, d1)
            else Inr (True,
                      s\<lparr>page_table := (page_table s)(pid := None),
                        pages := (pages s)[frameId := ResetMemory p],
                        free_list := free_list s @ [frameId]\<rparr>,
                      d1))"

definition UnpinPgImp_earlier ::
  "page_id_t \<Rightarrow> bool \<Rightarrow> BufferPoolManagerInstance
     \<Rightarrow> fault + (bool \<times> BufferPoolManagerInstance)" where
  "UnpinPgImp_earlier pid dirty s =
     (case page_table s pid of
        None \<Rightarrow> Inr (False, s)
      | Some frame_id \<Rightarrow>
          if \<not> frame_id < length (pages s) then Inl OutOfBounds
          else
            let p = (pages s ! frame_id)\<lparr>is_dirty := dirty\<rparr>;
                s1 = s\<lparr>pages := (pages s)[frame_id := p]\<rparr>
            in
            if pin_count p \<le> 0 then Inr (False, s1)
            else
              let p' = p\<lparr>pin_count := pin_count p - 1\<rparr>;
                  s2 = s1\<lparr>pages := (pages s1)[frame_id := p']\<rparr>
              in
              if pin_count p' = 0 then
                (case Unpin frame_id (replacer s2) of
                   Inl e \<Rightarrow> Inl e
                 | Inr r \<Rightarrow> Inr (True, s2\<lparr>replacer := r\<rparr>))
              else Inr (True, s2))"

text \<open>
  The earlier \<^verbatim>\<open>ParallelBufferPoolManager\<close> keeps \<^verbatim>\<open>startIdx\<close> and no pool size. Its
  \<^verbatim>\<open>NewPgImp\<close> runs \<^verbatim>\<open>index\<close> from \<^verbatim>\<open>startIdx\<close> to the end of \<^verbatim>\<open>instances_\<close> and
  bumps \<^verbatim>\<open>startIdx\<close> when a page was created.
\<close>

record ParallelBufferPoolManager_earlier =
  instances_earlier :: "BufferPoolManagerInstance list"
  startIdx :: nat

definition GetPoolSize_earlier :: "ParallelBufferPoolManager_earlier \<Rightarrow> nat" where
  "GetPoolSize_earlier m = length (instances_earlier m)"

fun NewPgImp_scan ::
  "nat list \<Rightarrow> ParallelBufferPoolManager_earlier \<Rightarrow> DiskManager
     \<Rightarrow> fault + ((page_id_t \<times> frame_id_t) option \<times> ParallelBufferPoolManager_earlier \<times> DiskManager)" where
  "NewPgImp_scan [] m d = Inr (None, m, d)"
| "NewPgImp_scan (index # rest) m d =
     (if \<not> index < length (instances_earlier m) then Inl OutOfBounds
      else
        case NewPgImp_earlier (instances_earlier m ! index) d of
          Inl e \<Rightarrow> Inl e
        | Inr (None, bfi, d') \<Rightarrow>
            NewPgImp_scan rest (m\<lparr>instances_earlier := (instances_earlier m)[index := bfi]\<rparr>) d'
        | Inr (Some pg, bfi, d') \<Rightarrow>
            Inr (Some pg,
                 m\<lparr>instances_earlier := (instances_earlier m)[index := bfi],
                   startIdx := (startIdx m + 1) mod length (instances_earlier m)\<rparr>,
                 d'))"

definition Parallel_NewPgImp_earlier ::
  "ParallelBufferPoolManager_earlier \<Rightarrow> DiskManager
     \<Rightarrow> fault + ((page_id_t \<times> frame_id_t) option \<times> ParallelBufferPoolManager_earlier \<times> DiskManager)" where
  "Parallel_NewPgImp_earlier m d = NewPgImp_scan [startIdx m..<length (instances_earlier m)] m d"

section \<open>Example states\<close>

text \<open>
  Two states of a pool with one frame, one instance: after \<^verbatim>\<open>NewPage\<close> (page 0 sits
  pinned in frame 0), and after \<^verbatim>\<open>NewPage\<close> and \<^verbatim>\<open>UnpinPage(0, true)\<close> (page 0 is
  dirty, unpinned and tracked by the replacer). Both are shown below to be reached from
  the constructor.
\<close>

definition pool1_pinned :: BufferPoolManagerInstance where
  "pool1_pinned =
     \<lparr>num_instances = 1, instance_index = 0, next_page_id = 1,
      pages = [\<lparr>data = replicate BUSTUB_PAGE_SIZE 0, page_id = 0, pin_count = 1, is_dirty = False\<rparr>],
      replacer = \<lparr>cache = {}, capacity = 1, head_to_tail = []\<rparr>,
      free_list = [], page_table = [0 \<mapsto> 0]\<rparr>"

definition pool1_unpinned_dirty :: BufferPoolManagerInstance where
  "pool1_unpinned_dirty =
     \<lparr>num_instances = 1, instance_index = 0, next_page_id = 1,
      pages = [\<lparr>data = replicate BUSTUB_PAGE_SIZE 0, page_id = 0, pin_count = 0, is_dirty = True\<rparr>],
      replacer = \<lparr>cache = {0}, capacity = 1, head_to_tail = [0]\<rparr>,
      free_list = [], page_table = [0 \<mapsto> 0]\<rparr>"

text \<open>
  Two shards with one frame each. \<open>two_shards_full\<close> is the manager after two calls of
  \<^verbatim>\<open>NewPage\<close>: pages 0 and 1 are pinned, the cursor is back at 0. In \<open>two_shards_half\<close>
  page 1 has since been unpinned and deleted in its shard.
\<close>

definition shard0_full :: BufferPoolManagerInstance where
  "shard0_full =
     \<lparr>num_instances = 2, instance_index = 0, next_page_id = 2,
      pages = [\<lparr>data = replicate BUSTUB_PAGE_SIZE 0, page_id = 0, pin_count = 1, is_dirty = False\<rparr>],
      replacer = \<lparr>cache = {}, capacity = 1, head_to_tail = []\<rparr>,
      free_list = [], page_table = [0 \<mapsto> 0]\<rparr>"

definition shard1_full :: BufferPoolManagerInstance where
  "shard1_full =
     \<lparr>num_instances = 2, instance_index = 1, next_page_id = 3,
      pages = [\<lparr>data = replicate BUSTUB_PAGE_SIZE 0, page_id = 1, pin_count = 1, is_dirty = False\<rparr>],
      replacer = \<lparr>cache = {}, capacity = 1, head_to_tail = []\<rparr>,
      free_list = [], page_table = [1 \<mapsto> 0]\<rparr>"

definition shard1_deleted :: BufferPoolManagerInstance where
  "shard1_deleted =
     \<lparr>num_instances = 2, instance_index = 1, next_page_id = 3,
      pages = [\<lparr>data = replicate BUSTUB_PAGE_SIZE 0, page_id = 1, pin_count = 0, is_dirty = False\<rparr>],
      replacer = \<lparr>cache = {}, capacity = 1, head_to_tail = []\<rparr>,
      free_list = [0], page_table = Map.empty\<rparr>"

definition two_shards_full :: ParallelBufferPoolManager where
  "two_shards_full =
     \<lparr>instances = [shard0_full, shard1_full], next_index = 0, each_pool_size = 1, num_instance = 2\<rparr>"

definition two_shards_half :: ParallelBufferPoolManager where
  "two_shards_half =
     \<lparr>instances = [shard0_full, shard1_deleted], next_index = 0, each_pool_size = 1, num_instance = 2\<rparr>"

section \<open>Properties of the LRU replacer\<close>

lemma replacer_ok_new: "replacer_ok (LRUReplacer_new n)"
  by (simp add: replacer_ok_def LRUReplacer_new_def)

lemma Pin_cache: "cache (Pin f r) = cache r - {f}"
  by (auto simp: Pin_def RemoveOne_def)

lemma Pin_capacity: "capacity (Pin f r) = capacity r"
  by (simp add: Pin_def RemoveOne_def)

lemma Pin_ok: "replacer_ok r \<Longrightarrow> replacer_ok (Pin f r)"
  by (auto simp: replacer_ok_def Pin_def RemoveOne_def)

lemma Pin_untracked: "f \<notin> cache r \<Longrightarrow> Pin f r = r"
  by (simp add: Pin_def)

lemma Victim_nonempty:
  "cache r \<noteq> {} \<Longrightarrow> head_to_tail r \<noteq> [] \<Longrightarrow>
   Victim r = Inr (Some (last (head_to_tail r)),
     r\<lparr>head_to_tail := butlast (head_to_tail r), cache := cache r - {last (head_to_tail r)}\<rparr>)"
  by (simp add: Victim_def RemoveLast_def)

lemma Victim_fault: "cache r \<noteq> {} \<Longrightarrow> head_to_tail r = [] \<Longrightarrow> Victim r = Inl NullPointer"
  by (simp add: Victim_def RemoveLast_def)

lemma Victim_empty: "cache r = {} \<Longrightarrow> Victim r = Inr (None, r)"
  by (simp add: Victim_def)

lemma Victim_None: "Victim r = Inr (None, r') \<Longrightarrow> r' = r \<and> cache r = {}"
  by (cases "cache r = {}"; cases "head_to_tail r = []")
     (simp_all add: Victim_empty Victim_fault Victim_nonempty)

lemma replacer_ok_nonempty: "replacer_ok r \<Longrightarrow> cache r \<noteq> {} \<Longrightarrow> head_to_tail r \<noteq> []"
  by (auto simp: replacer_ok_def)

lemma Victim_no_fault: "replacer_ok r \<Longrightarrow> Victim r \<noteq> Inl e"
  by (cases "cache r = {}") (simp_all add: Victim_empty Victim_nonempty replacer_ok_nonempty)

lemma replacer_ok_drop_last:
  assumes "replacer_ok r" "head_to_tail r \<noteq> []"
  shows "replacer_ok (r\<lparr>head_to_tail := butlast (head_to_tail r),
                        cache := cache r - {last (head_to_tail r)}\<rparr>)"
proof -
  from assms(2) obtain ys l where ys: "head_to_tail r = ys @ [l]"
    by (metis append_butlast_last_id)
  from assms(1) ys have "set ys \<union> {l} = cache r" "distinct ys" "l \<notin> set ys"
    by (auto simp: replacer_ok_def)
  with ys show ?thesis
    by (auto simp: replacer_ok_def)
qed

lemma Victim_Some:
  assumes "replacer_ok r" "Victim r = Inr (Some f, r')"
  shows "f \<in> cache r \<and> f = last (head_to_tail r) \<and> cache r' = cache r - {f} \<and> replacer_ok r'
         \<and> capacity r' = capacity r \<and> head_to_tail r' = butlast (head_to_tail r)"
proof -
  have c: "cache r \<noteq> {}"
  proof
    assume "cache r = {}"
    then have "Victim r = Inr (None, r)" by (rule Victim_empty)
    with assms(2) show False by simp
  qed
  with assms(1) have ne: "head_to_tail r \<noteq> []" by (rule replacer_ok_nonempty)
  from assms(2) have "Inr (Some (last (head_to_tail r)),
     r\<lparr>head_to_tail := butlast (head_to_tail r), cache := cache r - {last (head_to_tail r)}\<rparr>)
     = (Inr (Some f, r') :: fault + (frame_id_t option \<times> LRUReplacer))"
    unfolding Victim_nonempty [OF c ne] .
  then have f: "f = last (head_to_tail r)"
    and r': "r' = r\<lparr>head_to_tail := butlast (head_to_tail r), cache := cache r - {last (head_to_tail r)}\<rparr>"
    by (blast+)
  have "set (head_to_tail r) = cache r" using assms(1) by (simp add: replacer_ok_def)
  with ne have "f \<in> cache r" unfolding f using last_in_set by blast
  moreover have "replacer_ok r'" unfolding r' by (rule replacer_ok_drop_last [OF assms(1) ne])
  moreover have "cache r' = cache r - {f}" "capacity r' = capacity r" "head_to_tail r' = butlast (head_to_tail r)"
    unfolding r' f by simp_all
  ultimately show ?thesis using f by blast
qed

lemma Unpin_full:
  assumes "f \<notin> cache r" "capacity r \<le> card (cache r)" "head_to_tail r \<noteq> []"
  shows "Unpin f r = Inr (r\<lparr>head_to_tail := f # butlast (head_to_tail r),
                            cache := insert f (cache r - {last (head_to_tail r)})\<rparr>)"
  using assms by (simp add: Unpin_def AddToFirst_def RemoveLast_def)

lemma Unpin_full_fault:
  assumes "f \<notin> cache r" "capacity r \<le> card (cache r)" "head_to_tail r = []"
  shows "Unpin f r = Inl NullPointer"
  using assms by (simp add: Unpin_def RemoveLast_def)

lemma Unpin_room':
  assumes "f \<notin> cache r" "\<not> capacity r \<le> card (cache r)"
  shows "Unpin f r = Inr (r\<lparr>head_to_tail := f # head_to_tail r, cache := insert f (cache r)\<rparr>)"
  using assms by (simp add: Unpin_def AddToFirst_def)

lemma Unpin_tracked: "f \<in> cache r \<Longrightarrow> Unpin f r = Inr r"
  by (simp add: Unpin_def)

lemma replacer_ok_butlast:
  assumes "replacer_ok r" "head_to_tail r \<noteq> []" "f \<notin> cache r"
  shows "replacer_ok (r\<lparr>head_to_tail := f # butlast (head_to_tail r),
                            cache := insert f (cache r - {last (head_to_tail r)})\<rparr>)"
proof -
  from assms(2) obtain ys l where ys: "head_to_tail r = ys @ [l]"
    by (metis append_butlast_last_id)
  from assms(1) ys have "set ys \<union> {l} = cache r" "distinct ys" "l \<notin> set ys"
    by (auto simp: replacer_ok_def)
  with assms(3) ys show ?thesis
    by (auto simp: replacer_ok_def)
qed

lemma Unpin_ok:
  assumes "replacer_ok r" "Unpin f r = Inr r'"
  shows "replacer_ok r' \<and> f \<in> cache r' \<and> capacity r' = capacity r \<and> cache r' \<subseteq> insert f (cache r)"
proof (cases "f \<in> cache r")
  case True
  with assms show ?thesis by (auto simp: Unpin_tracked)
next
  case nin: False
  show ?thesis
  proof (cases "capacity r \<le> card (cache r)")
    case True
    show ?thesis
    proof (cases "head_to_tail r = []")
      case True
      with nin \<open>capacity r \<le> card (cache r)\<close> assms(2) show ?thesis
        by (simp add: Unpin_full_fault)
    next
      case False
      with nin True assms(2)
      have r': "r' = r\<lparr>head_to_tail := f # butlast (head_to_tail r),
                            cache := insert f (cache r - {last (head_to_tail r)})\<rparr>"
        by (simp add: Unpin_full)
      have "replacer_ok r'" unfolding r' by (rule replacer_ok_butlast [OF assms(1) False nin])
      moreover have "f \<in> cache r'" "capacity r' = capacity r" "cache r' \<subseteq> insert f (cache r)"
        unfolding r' by auto
      ultimately show ?thesis by blast
    qed
  next
    case False
    with nin assms(2)
    have r': "r' = r\<lparr>head_to_tail := f # head_to_tail r, cache := insert f (cache r)\<rparr>"
      by (simp add: Unpin_room')
    from assms(1) nin have "replacer_ok r'" unfolding r' by (auto simp: replacer_ok_def)
    moreover have "f \<in> cache r'" "capacity r' = capacity r" "cache r' \<subseteq> insert f (cache r)"
      unfolding r' by auto
    ultimately show ?thesis by blast
  qed
qed

lemma Unpin_no_fault:
  assumes "replacer_ok r" "0 < capacity r"
  shows "Unpin f r \<noteq> Inl e"
proof -
  have "head_to_tail r \<noteq> []" if "capacity r \<le> card (cache r)"
  proof
    assume "head_to_tail r = []"
    with assms(1) have "cache r = {}" by (simp add: replacer_ok_def)
    with that assms(2) show False by simp
  qed
  then show ?thesis
    by (cases "f \<in> cache r"; cases "capacity r \<le> card (cache r)")
       (simp_all add: Unpin_tracked Unpin_full Unpin_room')
qed

section \<open>The structural invariant of an instance\<close>

lemma ran_upd_subset: "ran (m(k \<mapsto> v)) \<subseteq> insert v (ran m)"
  by (auto simp: ran_def split: if_splits)

lemma ran_del_subset: "ran (m(k := None)) \<subseteq> ran m"
  by (auto simp: ran_def split: if_splits)

lemma ran_lookup: "m k = Some v \<Longrightarrow> v \<in> ran m"
  by (auto simp: ran_def)

lemma frames_okD:
  assumes "frames_ok s"
  shows "replacer_ok (replacer s)" "capacity (replacer s) = length (pages s)"
    "cache (replacer s) \<subseteq> {..<length (pages s)}" "set (free_list s) \<subseteq> {..<length (pages s)}"
    "ran (page_table s) \<subseteq> {..<length (pages s)}"
  using assms unfolding frames_ok_def by blast+

lemma frames_okI:
  assumes "replacer_ok (replacer s)" "capacity (replacer s) = length (pages s)"
    "cache (replacer s) \<subseteq> {..<length (pages s)}" "set (free_list s) \<subseteq> {..<length (pages s)}"
    "ran (page_table s) \<subseteq> {..<length (pages s)}"
  shows "frames_ok s"
  using assms unfolding frames_ok_def by blast

lemma frames_ok_lookup: "frames_ok s \<Longrightarrow> page_table s pid = Some f \<Longrightarrow> f < length (pages s)"
  using frames_okD(5) ran_lookup by fastforce

subsection \<open>Acquiring a frame\<close>

lemma acquire_frame_free:
  "free_list s = f # rest \<Longrightarrow> acquire_frame s = Inr (Some f, s\<lparr>free_list := rest\<rparr>)"
  by (simp add: acquire_frame_def)

lemma acquire_frame_exhausted:
  "free_list s = [] \<Longrightarrow> cache (replacer s) = {} \<Longrightarrow> acquire_frame s = Inr (None, s)"
  by (simp add: acquire_frame_def Victim_empty)

lemma acquire_frame_victim:
  "free_list s = [] \<Longrightarrow> Victim (replacer s) = Inr (Some f, r) \<Longrightarrow>
   acquire_frame s = Inr (Some f, s\<lparr>replacer := r\<rparr>)"
  by (simp add: acquire_frame_def)

lemma acquire_frame_fault:
  "free_list s = [] \<Longrightarrow> Victim (replacer s) = Inl e \<Longrightarrow> acquire_frame s = Inl e"
  by (simp add: acquire_frame_def)

lemma acquire_frame_cases:
  obtains (free) f rest where "free_list s = f # rest" "acquire_frame s = Inr (Some f, s\<lparr>free_list := rest\<rparr>)"
  | (exhausted) "free_list s = []" "cache (replacer s) = {}" "acquire_frame s = Inr (None, s)"
  | (victim) f r where "free_list s = []" "cache (replacer s) \<noteq> {}" "Victim (replacer s) = Inr (Some f, r)"
      "acquire_frame s = Inr (Some f, s\<lparr>replacer := r\<rparr>)"
  | (fault) e where "free_list s = []" "cache (replacer s) \<noteq> {}" "Victim (replacer s) = Inl e" "acquire_frame s = Inl e"
proof (cases "free_list s")
  case (Cons f rest)
  then show ?thesis using free acquire_frame_free by blast
next
  case Nil
  show ?thesis
  proof (cases "cache (replacer s) = {}")
    case True
    with Nil show ?thesis using exhausted acquire_frame_exhausted by blast
  next
    case False
    show ?thesis
    proof (cases "Victim (replacer s)")
      case (Inl e)
      with Nil False show ?thesis using fault acquire_frame_fault by blast
    next
      case (Inr x)
      obtain fo r where x: "x = (fo, r)" by (cases x)
      show ?thesis
      proof (cases fo)
        case None
        with Inr x have "cache (replacer s) = {}" using Victim_None by blast
        with False show ?thesis by simp
      next
        case (Some f)
        with Inr x Nil False show ?thesis using victim acquire_frame_victim by blast
      qed
    qed
  qed
qed

lemma acquire_frame_None:
  assumes "acquire_frame s = Inr (None, s')"
  shows "s' = s \<and> free_list s = [] \<and> cache (replacer s) = {}"
  using assms by (cases s rule: acquire_frame_cases) simp_all

lemma frames_ok_free_list_update:
  "frames_ok s \<Longrightarrow> set xs \<subseteq> set (free_list s) \<Longrightarrow> frames_ok (s\<lparr>free_list := xs\<rparr>)"
  unfolding frames_ok_def by auto

lemma frames_ok_victim:
  assumes "frames_ok s" "Victim (replacer s) = Inr (Some f, r)"
  shows "frames_ok (s\<lparr>replacer := r\<rparr>)"
proof -
  note v = Victim_Some [OF frames_okD(1) [OF assms(1)] assms(2)]
  from v have "cache r \<subseteq> cache (replacer s)" by blast
  with assms(1) v show ?thesis unfolding frames_ok_def by auto
qed

lemma acquire_frame_Some:
  assumes "frames_ok s" "acquire_frame s = Inr (Some f, s')"
  shows "frames_ok s' \<and> f < length (pages s) \<and> pages s' = pages s \<and> page_table s' = page_table s
         \<and> next_page_id s' = next_page_id s \<and> num_instances s' = num_instances s
         \<and> instance_index s' = instance_index s
         \<and> cache (replacer s') \<subseteq> cache (replacer s)"
proof (cases s rule: acquire_frame_cases)
  case (free g rest)
  with assms(2) have f: "g = f" and s': "s' = s\<lparr>free_list := rest\<rparr>" by simp_all
  from free(1) f have "f \<in> set (free_list s)" by simp
  with assms(1) have lt: "f < length (pages s)" using frames_okD(4) by blast
  have "frames_ok s'" unfolding s' using assms(1) free(1) by (intro frames_ok_free_list_update) auto
  then show ?thesis using lt unfolding s' by simp
next
  case exhausted
  with assms(2) show ?thesis by simp
next
  case (victim g r)
  with assms(2) have f: "g = f" and s': "s' = s\<lparr>replacer := r\<rparr>" by simp_all
  note v = Victim_Some [OF frames_okD(1) [OF assms(1)] victim(3) [unfolded f]]
  from v assms(1) have lt: "f < length (pages s)" using frames_okD(3) by blast
  have "frames_ok s'" unfolding s' using assms(1) victim(3) by (rule frames_ok_victim)
  moreover have "cache (replacer s') \<subseteq> cache (replacer s)"
    unfolding s' using v by auto
  ultimately show ?thesis using lt unfolding s' by simp
next
  case (fault e)
  with assms(2) show ?thesis by simp
qed

lemma frames_ok_install:
  assumes "frames_ok s" "f < length (pages s)"
    and "replacer s' = replacer s" "free_list s' = free_list s"
    and "length (pages s') = length (pages s)"
    and "page_table s' = ((page_table s)(k := None))(k' \<mapsto> f)"
  shows "frames_ok s'"
proof -
  have "ran (page_table s') \<subseteq> insert f (ran (page_table s))"
    unfolding assms(6) using ran_upd_subset ran_del_subset by fast
  with assms show ?thesis unfolding frames_ok_def by auto
qed

lemma frames_ok_same_frames:
  assumes "frames_ok s"
    and "replacer s' = replacer s" "free_list s' = free_list s"
    and "length (pages s') = length (pages s)"
    and "page_table s' = page_table s"
  shows "frames_ok s'"
  using assms unfolding frames_ok_def by auto

subsection \<open>Allocating a page id\<close>

lemma AllocatePage_Inr:
  assumes "AllocatePage s = Inr (pid, s')"
  shows "pid = next_page_id s \<and> s' = s\<lparr>next_page_id := next_page_id s + num_instances s\<rparr>
         \<and> pid mod num_instances s = instance_index s"
proof -
  have v: "ValidatePageId (next_page_id s) (s\<lparr>next_page_id := next_page_id s + num_instances s\<rparr>)"
    using assms by (cases "ValidatePageId (next_page_id s) (s\<lparr>next_page_id := next_page_id s + num_instances s\<rparr>)")
      (simp_all add: AllocatePage_def Let_def)
  then have "AllocatePage s = Inr (next_page_id s, s\<lparr>next_page_id := next_page_id s + num_instances s\<rparr>)"
    by (simp add: AllocatePage_def Let_def)
  with assms have "Inr (next_page_id s, s\<lparr>next_page_id := next_page_id s + num_instances s\<rparr>)
      = (Inr (pid, s') :: fault + (page_id_t \<times> BufferPoolManagerInstance))"
    by (metis)
  then have "pid = next_page_id s" "s' = s\<lparr>next_page_id := next_page_id s + num_instances s\<rparr>"
    by blast+
  moreover from v have "next_page_id s mod num_instances s = instance_index s"
    by (simp add: ValidatePageId_def)
  ultimately show ?thesis by blast
qed

lemma AllocatePage_valid:
  "next_page_id s mod num_instances s = instance_index s \<Longrightarrow>
   AllocatePage s = Inr (next_page_id s, s\<lparr>next_page_id := next_page_id s + num_instances s\<rparr>)"
  by (simp add: AllocatePage_def Let_def ValidatePageId_def)

lemma AllocatePage_invalid:
  "next_page_id s mod num_instances s \<noteq> instance_index s \<Longrightarrow> AllocatePage s = Inl AssertionFailure"
  by (simp add: AllocatePage_def Let_def ValidatePageId_def)

lemma AllocatePage_Inl: "AllocatePage s = Inl e \<Longrightarrow> e = AssertionFailure"
  by (cases "next_page_id s mod num_instances s = instance_index s")
     (simp_all add: AllocatePage_valid AllocatePage_invalid)

subsection \<open>Creating a page\<close>

lemma NewPgImp_exhausted:
  "free_list s = [] \<Longrightarrow> cache (replacer s) = {} \<Longrightarrow> NewPgImp s d = Inr (None, s, d)"
  by (simp add: NewPgImp_def acquire_frame_exhausted)

lemma NewPgImp_acquired:
  assumes "acquire_frame s = Inr (Some f, s1)" "f < length (pages s1)"
    and "next_page_id s1 mod num_instances s1 = instance_index s1"
  shows "NewPgImp s d =
     Inr (Some (next_page_id s1, f),
          s1\<lparr>next_page_id := next_page_id s1 + num_instances s1,
             page_table := ((page_table s1)(page_id (pages s1 ! f) := None))(next_page_id s1 \<mapsto> f),
             pages := (pages s1)[f := (ResetMemory (pages s1 ! f))\<lparr>page_id := next_page_id s1,
                                        pin_count := 1, is_dirty := False\<rparr>]\<rparr>,
          write_back (pages s1 ! f) d)"
  using assms by (simp add: NewPgImp_def AllocatePage_valid Let_def)

lemma NewPgImp_assert:
  assumes "acquire_frame s = Inr (Some f, s1)" "f < length (pages s1)"
    and "next_page_id s1 mod num_instances s1 \<noteq> instance_index s1"
  shows "NewPgImp s d = Inl AssertionFailure"
  using assms by (simp add: NewPgImp_def AllocatePage_invalid Let_def)

lemma NewPgImp_acquire_fault:
  "acquire_frame s = Inl e \<Longrightarrow> NewPgImp s d = Inl e"
  by (simp add: NewPgImp_def)

lemma NewPgImp_None:
  assumes "NewPgImp s d = Inr (None, s', d')"
  shows "s' = s \<and> d' = d \<and> free_list s = [] \<and> cache (replacer s) = {}"
proof (cases "acquire_frame s")
  case (Inl e)
  with assms show ?thesis by (simp add: NewPgImp_acquire_fault)
next
  case (Inr x)
  obtain fo s1 where x: "x = (fo, s1)" by (cases x)
  show ?thesis
  proof (cases fo)
    case None
    with Inr x have a: "acquire_frame s = Inr (None, s1)" by simp
    from acquire_frame_None [OF a] have "s1 = s" "free_list s = []" "cache (replacer s) = {}" by blast+
    moreover from this have "NewPgImp s d = Inr (None, s, d)" by (simp add: NewPgImp_exhausted)
    ultimately show ?thesis using assms by simp
  next
    case (Some f)
    with Inr x have a: "acquire_frame s = Inr (Some f, s1)" by simp
    show ?thesis
    proof (cases "f < length (pages s1)")
      case False
      with a assms show ?thesis by (simp add: NewPgImp_def)
    next
      case True
      show ?thesis
      proof (cases "next_page_id s1 mod num_instances s1 = instance_index s1")
        case v: True
        from assms show ?thesis unfolding NewPgImp_acquired [OF a True v] by simp
      next
        case v: False
        from assms show ?thesis unfolding NewPgImp_assert [OF a True v] by simp
      qed
    qed
  qed
qed

lemma NewPgImp_Some:
  assumes "frames_ok s" "NewPgImp s d = Inr (Some (pid, f), s', d')"
  shows "frames_ok s' \<and> pid = next_page_id s \<and> pid mod num_instances s = instance_index s
         \<and> next_page_id s' = next_page_id s + num_instances s
         \<and> num_instances s' = num_instances s \<and> instance_index s' = instance_index s
         \<and> length (pages s') = length (pages s) \<and> f < length (pages s)
         \<and> page_table s' pid = Some f
         \<and> pages s' ! f = \<lparr>data = replicate BUSTUB_PAGE_SIZE 0, page_id = pid, pin_count = 1, is_dirty = False\<rparr>
         \<and> d' = write_back (pages s ! f) d"
proof (cases "acquire_frame s")
  case (Inl e)
  with assms show ?thesis by (simp add: NewPgImp_acquire_fault)
next
  case (Inr x)
  obtain fo s1 where x: "x = (fo, s1)" by (cases x)
  show ?thesis
  proof (cases fo)
    case None
    with Inr x have a: "acquire_frame s = Inr (None, s1)" by simp
    from acquire_frame_None [OF a] have "NewPgImp s d = Inr (None, s, d)" by (simp add: NewPgImp_exhausted)
    with assms show ?thesis by simp
  next
    case (Some g)
    with Inr x have a: "acquire_frame s = Inr (Some g, s1)" by simp
    note s1 = acquire_frame_Some [OF assms(1) a]
    from s1 have lt: "g < length (pages s1)" by simp
    show ?thesis
    proof (cases "next_page_id s1 mod num_instances s1 = instance_index s1")
      case v: False
      from assms show ?thesis unfolding NewPgImp_assert [OF a lt v] by simp
    next
      case v: True
      let ?s' = "s1\<lparr>next_page_id := next_page_id s1 + num_instances s1,
             page_table := ((page_table s1)(page_id (pages s1 ! g) := None))(next_page_id s1 \<mapsto> g),
             pages := (pages s1)[g := (ResetMemory (pages s1 ! g))\<lparr>page_id := next_page_id s1,
                                        pin_count := 1, is_dirty := False\<rparr>]\<rparr>"
      from assms(2) have "Inr (Some (next_page_id s1, g), ?s', write_back (pages s1 ! g) d)
          = (Inr (Some (pid, f), s', d') :: fault + ((page_id_t \<times> frame_id_t) option \<times> BufferPoolManagerInstance \<times> DiskManager))"
        unfolding NewPgImp_acquired [OF a lt v] .
      then have pid: "pid = next_page_id s1" and f: "f = g" and s': "s' = ?s'"
        and d': "d' = write_back (pages s1 ! g) d"
        by blast+
      have "frames_ok s'"
        by (rule frames_ok_install [where s = s1 and f = g]) (use s1 lt in \<open>simp_all add: s'\<close>)
      moreover have "pages s' ! f = \<lparr>data = replicate BUSTUB_PAGE_SIZE 0, page_id = pid, pin_count = 1, is_dirty = False\<rparr>"
        unfolding s' f pid using lt by (simp add: ResetMemory_def)
      moreover have "page_table s' pid = Some f" unfolding s' f pid by simp
      moreover have "next_page_id s' = next_page_id s + num_instances s" "num_instances s' = num_instances s"
        "instance_index s' = instance_index s" "length (pages s') = length (pages s)"
        unfolding s' using s1 by simp_all
      moreover have "pid mod num_instances s = instance_index s" "pid = next_page_id s"
        unfolding pid using v s1 by simp_all
      moreover have "f < length (pages s)" "d' = write_back (pages s ! f) d"
        unfolding f d' using s1 by simp_all
      ultimately show ?thesis by blast
    qed
  qed
qed

subsection \<open>Fetching a page\<close>

lemma FetchPgImp_hit:
  "page_table s pid = Some f \<Longrightarrow> f < length (pages s) \<Longrightarrow>
   FetchPgImp pid s d =
     Inr (Some f,
          s\<lparr>replacer := Pin f (replacer s),
            pages := (pages s)[f := (pages s ! f)\<lparr>pin_count := int32 (pin_count (pages s ! f) + 1)\<rparr>]\<rparr>,
          d)"
  by (simp add: FetchPgImp_def Let_def)

lemma FetchPgImp_exhausted:
  "page_table s pid = None \<Longrightarrow> free_list s = [] \<Longrightarrow> cache (replacer s) = {} \<Longrightarrow>
   FetchPgImp pid s d = Inr (None, s, d)"
  by (simp add: FetchPgImp_def acquire_frame_exhausted)

lemma FetchPgImp_acquired:
  "page_table s pid = None \<Longrightarrow> acquire_frame s = Inr (Some f, s1) \<Longrightarrow> f < length (pages s1) \<Longrightarrow>
   FetchPgImp pid s d =
     Inr (Some f,
          s1\<lparr>page_table := ((page_table s1)(page_id (pages s1 ! f) := None))(pid \<mapsto> f),
             pages := (pages s1)[f := (pages s1 ! f)\<lparr>data := ReadPage pid (write_back (pages s1 ! f) d),
                                       pin_count := 1, is_dirty := False, page_id := pid\<rparr>]\<rparr>,
          write_back (pages s1 ! f) d)"
  by (simp add: FetchPgImp_def Let_def)

lemma FetchPgImp_acquire_fault:
  "page_table s pid = None \<Longrightarrow> acquire_frame s = Inl e \<Longrightarrow> FetchPgImp pid s d = Inl e"
  by (simp add: FetchPgImp_def)

lemma acquire_frame_no_fault: "frames_ok s \<Longrightarrow> acquire_frame s \<noteq> Inl e"
proof (cases s rule: acquire_frame_cases)
  case (fault e')
  assume "frames_ok s"
  then have "replacer_ok (replacer s)" by (rule frames_okD)
  with fault(3) show ?thesis using Victim_no_fault by blast
qed simp_all

lemma frames_ok_pin:
  assumes "frames_ok s" "replacer s' = Pin f (replacer s)" "free_list s' = free_list s"
    "length (pages s') = length (pages s)" "page_table s' = page_table s"
  shows "frames_ok s'"
proof -
  have "replacer_ok (replacer s')" unfolding assms(2) using assms(1) frames_okD(1) Pin_ok by blast
  moreover have "cache (replacer s') \<subseteq> cache (replacer s)" unfolding assms(2) Pin_cache by blast
  moreover have "capacity (replacer s') = capacity (replacer s)" unfolding assms(2) by (rule Pin_capacity)
  ultimately show ?thesis using assms(1,3,4,5) unfolding frames_ok_def by auto
qed

lemma FetchPgImp_ok:
  assumes "frames_ok s"
  shows "case FetchPgImp pid s d of Inl e \<Rightarrow> False | Inr (r, s', d') \<Rightarrow> frames_ok s'
           \<and> length (pages s') = length (pages s) \<and> next_page_id s' = next_page_id s
           \<and> num_instances s' = num_instances s \<and> instance_index s' = instance_index s"
proof (cases "page_table s pid")
  case (Some f)
  with assms have lt: "f < length (pages s)" by (simp add: frames_ok_lookup)
  let ?s' = "s\<lparr>replacer := Pin f (replacer s),
            pages := (pages s)[f := (pages s ! f)\<lparr>pin_count := int32 (pin_count (pages s ! f) + 1)\<rparr>]\<rparr>"
  have "frames_ok ?s'" by (rule frames_ok_pin [OF assms, where f = f]) simp_all
  then show ?thesis unfolding FetchPgImp_hit [OF Some lt] by simp
next
  case None
  show ?thesis
  proof (cases "acquire_frame s")
    case (Inl e)
    with assms show ?thesis using acquire_frame_no_fault by blast
  next
    case (Inr x)
    obtain fo s1 where x: "x = (fo, s1)" by (cases x)
    show ?thesis
    proof (cases fo)
      case n: None
      with Inr x have a: "acquire_frame s = Inr (None, s1)" by simp
      from acquire_frame_None [OF a] None
      have "FetchPgImp pid s d = Inr (None, s, d)" by (simp add: FetchPgImp_exhausted)
      with assms show ?thesis by simp
    next
      case (Some f)
      with Inr x have a: "acquire_frame s = Inr (Some f, s1)" by simp
      note s1 = acquire_frame_Some [OF assms a]
      from s1 have lt: "f < length (pages s1)" by simp
      let ?s' = "s1\<lparr>page_table := ((page_table s1)(page_id (pages s1 ! f) := None))(pid \<mapsto> f),
             pages := (pages s1)[f := (pages s1 ! f)\<lparr>data := ReadPage pid (write_back (pages s1 ! f) d),
                                       pin_count := 1, is_dirty := False, page_id := pid\<rparr>]\<rparr>"
      have "frames_ok ?s'"
        by (rule frames_ok_install [where s = s1 and f = f]) (use s1 lt in simp_all)
      then show ?thesis unfolding FetchPgImp_acquired [OF None a lt] using s1 by simp
    qed
  qed
qed

subsection \<open>Deleting a page\<close>

lemma DeletePgImp_absent:
  "page_table s pid = None \<Longrightarrow> DeletePgImp pid s d = Inr (True, s, DeallocatePage pid d)"
  by (simp add: DeletePgImp_def)

lemma DeletePgImp_pinned:
  "page_table s pid = Some f \<Longrightarrow> f < length (pages s) \<Longrightarrow> 0 < pin_count (pages s ! f) \<Longrightarrow>
   DeletePgImp pid s d = Inr (False, s, DeallocatePage pid d)"
  by (simp add: DeletePgImp_def Let_def)

lemma DeletePgImp_unpinned:
  "page_table s pid = Some f \<Longrightarrow> f < length (pages s) \<Longrightarrow> \<not> 0 < pin_count (pages s ! f) \<Longrightarrow>
   DeletePgImp pid s d =
     Inr (True,
          s\<lparr>page_table := (page_table s)(pid := None),
            replacer := Pin f (replacer s),
            pages := (pages s)[f := (ResetMemory (pages s ! f))\<lparr>is_dirty := False\<rparr>],
            free_list := free_list s @ [f]\<rparr>,
          DeallocatePage pid d)"
  by (simp add: DeletePgImp_def Let_def)

lemma frames_ok_delete:
  assumes "frames_ok s" "f < length (pages s)" "replacer s' = Pin f (replacer s)"
    "free_list s' = free_list s @ [f]"
    "length (pages s') = length (pages s)" "page_table s' = (page_table s)(pid := None)"
  shows "frames_ok s'"
proof -
  have "replacer_ok (replacer s')" unfolding assms(3) using assms(1) frames_okD(1) Pin_ok by blast
  moreover have "cache (replacer s') \<subseteq> cache (replacer s)" unfolding assms(3) Pin_cache by blast
  moreover have "capacity (replacer s') = capacity (replacer s)" unfolding assms(3) by (rule Pin_capacity)
  moreover have "ran (page_table s') \<subseteq> ran (page_table s)" unfolding assms(6) by (rule ran_del_subset)
  ultimately show ?thesis using assms(1,2,4,5) unfolding frames_ok_def by auto
qed

lemma DeletePgImp_ok:
  assumes "frames_ok s"
  shows "case DeletePgImp pid s d of Inl e \<Rightarrow> False | Inr (r, s', d') \<Rightarrow> frames_ok s'
           \<and> length (pages s') = length (pages s) \<and> next_page_id s' = next_page_id s
           \<and> num_instances s' = num_instances s \<and> instance_index s' = instance_index s"
proof (cases "page_table s pid")
  case None
  with assms show ?thesis by (simp add: DeletePgImp_absent)
next
  case (Some f)
  with assms have lt: "f < length (pages s)" by (simp add: frames_ok_lookup)
  show ?thesis
  proof (cases "0 < pin_count (pages s ! f)")
    case True
    with assms show ?thesis by (simp add: DeletePgImp_pinned [OF Some lt])
  next
    case False
    let ?s' = "s\<lparr>page_table := (page_table s)(pid := None),
            replacer := Pin f (replacer s),
            pages := (pages s)[f := (ResetMemory (pages s ! f))\<lparr>is_dirty := False\<rparr>],
            free_list := free_list s @ [f]\<rparr>"
    have "frames_ok ?s'" by (rule frames_ok_delete [OF assms lt, where pid = pid]) simp_all
    then show ?thesis unfolding DeletePgImp_unpinned [OF Some lt False] by simp
  qed
qed

subsection \<open>Unpinning a page\<close>

lemma UnpinPgImp_absent:
  "page_table s pid = None \<Longrightarrow> UnpinPgImp pid dirty s = Inr (False, s)"
  by (simp add: UnpinPgImp_def)

lemma UnpinPgImp_not_pinned:
  "page_table s pid = Some f \<Longrightarrow> f < length (pages s) \<Longrightarrow> pin_count (pages s ! f) \<le> 0 \<Longrightarrow>
   UnpinPgImp pid dirty s =
     Inr (False, s\<lparr>pages := (pages s)[f := (pages s ! f)\<lparr>is_dirty := is_dirty (pages s ! f) \<or> dirty\<rparr>]\<rparr>)"
  by (simp add: UnpinPgImp_def Let_def)

lemma UnpinPgImp_still_pinned:
  "page_table s pid = Some f \<Longrightarrow> f < length (pages s) \<Longrightarrow> 1 < pin_count (pages s ! f) \<Longrightarrow>
   UnpinPgImp pid dirty s =
     Inr (True, s\<lparr>pages := (pages s)[f := (pages s ! f)\<lparr>is_dirty := is_dirty (pages s ! f) \<or> dirty,
                                                     pin_count := pin_count (pages s ! f) - 1\<rparr>]\<rparr>)"
  by (simp add: UnpinPgImp_def Let_def)

lemma UnpinPgImp_last_pin:
  "page_table s pid = Some f \<Longrightarrow> f < length (pages s) \<Longrightarrow> pin_count (pages s ! f) = 1 \<Longrightarrow>
   Unpin f (replacer s) = Inr r \<Longrightarrow>
   UnpinPgImp pid dirty s =
     Inr (True, s\<lparr>pages := (pages s)[f := (pages s ! f)\<lparr>is_dirty := is_dirty (pages s ! f) \<or> dirty,
                                                     pin_count := 0\<rparr>],
                   replacer := r\<rparr>)"
  by (simp add: UnpinPgImp_def Let_def)

lemma UnpinPgImp_last_pin_fault:
  "page_table s pid = Some f \<Longrightarrow> f < length (pages s) \<Longrightarrow> pin_count (pages s ! f) = 1 \<Longrightarrow>
   Unpin f (replacer s) = Inl e \<Longrightarrow> UnpinPgImp pid dirty s = Inl e"
  by (simp add: UnpinPgImp_def Let_def)

lemma card_less_pool:
  assumes "A \<subseteq> {..<n}" "f < n" "f \<notin> A"
  shows "card A < n"
proof -
  from assms have "A \<subseteq> {..<n} - {f}" by blast
  then have "card A \<le> card ({..<n} - {f})" by (intro card_mono) simp_all
  also have "\<dots> < n" using assms(2) by simp
  finally show ?thesis .
qed

lemma frames_ok_Unpin:
  assumes "frames_ok s" "f < length (pages s)"
  shows "\<exists>r. Unpin f (replacer s) = Inr r \<and> replacer_ok r \<and> capacity r = capacity (replacer s)
            \<and> cache r = insert f (cache (replacer s))
            \<and> (f \<notin> cache (replacer s) \<longrightarrow> head_to_tail r = f # head_to_tail (replacer s))
            \<and> (f \<in> cache (replacer s) \<longrightarrow> r = replacer s)"
proof (cases "f \<in> cache (replacer s)")
  case True
  then have "Unpin f (replacer s) = Inr (replacer s)" by (rule Unpin_tracked)
  moreover have "replacer_ok (replacer s)" using assms(1) by (rule frames_okD)
  ultimately show ?thesis using True by auto
next
  case False
  have ok: "replacer_ok (replacer s)" using assms(1) by (rule frames_okD)
  have "card (cache (replacer s)) < length (pages s)"
    using frames_okD(3) [OF assms(1)] assms(2) False by (rule card_less_pool)
  then have room: "\<not> capacity (replacer s) \<le> card (cache (replacer s))"
    using frames_okD(2) [OF assms(1)] by simp
  let ?r = "(replacer s)\<lparr>head_to_tail := f # head_to_tail (replacer s), cache := insert f (cache (replacer s))\<rparr>"
  have u: "Unpin f (replacer s) = Inr ?r" using False room by (rule Unpin_room')
  have "replacer_ok ?r" using Unpin_ok [OF ok u] by blast
  with u False show ?thesis by simp
qed

lemma frames_ok_tracked:
  assumes "frames_ok s" "f < length (pages s)" "replacer_ok (replacer s')"
    "capacity (replacer s') = capacity (replacer s)" "cache (replacer s') = insert f (cache (replacer s))"
    "free_list s' = free_list s" "length (pages s') = length (pages s)" "page_table s' = page_table s"
  shows "frames_ok s'"
  using assms unfolding frames_ok_def by auto

lemma UnpinPgImp_ok:
  assumes "frames_ok s"
  shows "case UnpinPgImp pid dirty s of Inl e \<Rightarrow> False | Inr (r, s') \<Rightarrow> frames_ok s'
           \<and> length (pages s') = length (pages s) \<and> next_page_id s' = next_page_id s
           \<and> num_instances s' = num_instances s \<and> instance_index s' = instance_index s"
proof (cases "page_table s pid")
  case None
  with assms show ?thesis by (simp add: UnpinPgImp_absent)
next
  case (Some f)
  with assms have lt: "f < length (pages s)" by (simp add: frames_ok_lookup)
  consider "pin_count (pages s ! f) \<le> 0" | "pin_count (pages s ! f) = 1" | "1 < pin_count (pages s ! f)"
    by linarith
  then show ?thesis
  proof cases
    case 1
    let ?s' = "s\<lparr>pages := (pages s)[f := (pages s ! f)\<lparr>is_dirty := is_dirty (pages s ! f) \<or> dirty\<rparr>]\<rparr>"
    have "frames_ok ?s'" by (rule frames_ok_same_frames [OF assms]) simp_all
    then show ?thesis unfolding UnpinPgImp_not_pinned [OF Some lt 1] by simp
  next
    case 3
    let ?s' = "s\<lparr>pages := (pages s)[f := (pages s ! f)\<lparr>is_dirty := is_dirty (pages s ! f) \<or> dirty,
                                                     pin_count := pin_count (pages s ! f) - 1\<rparr>]\<rparr>"
    have "frames_ok ?s'" by (rule frames_ok_same_frames [OF assms]) simp_all
    then show ?thesis unfolding UnpinPgImp_still_pinned [OF Some lt 3] by simp
  next
    case 2
    from frames_ok_Unpin [OF assms lt] obtain r where r: "Unpin f (replacer s) = Inr r"
      "replacer_ok r" "capacity r = capacity (replacer s)" "cache r = insert f (cache (replacer s))"
      by blast
    let ?s' = "s\<lparr>pages := (pages s)[f := (pages s ! f)\<lparr>is_dirty := is_dirty (pages s ! f) \<or> dirty,
                                                     pin_count := 0\<rparr>],
                   replacer := r\<rparr>"
    have "frames_ok ?s'" by (rule frames_ok_tracked [OF assms lt]) (use r in simp_all)
    then show ?thesis unfolding UnpinPgImp_last_pin [OF Some lt 2 r(1)] by simp
  qed
qed

lemma NewPgImp_ok:
  assumes "frames_ok s"
  shows "case NewPgImp s d of Inl e \<Rightarrow> e = AssertionFailure
         | Inr (r, s', d') \<Rightarrow> frames_ok s'
           \<and> length (pages s') = length (pages s)
           \<and> num_instances s' = num_instances s \<and> instance_index s' = instance_index s"
proof (cases "NewPgImp s d")
  case (Inl e)
  have "e = AssertionFailure"
  proof (cases "acquire_frame s")
    case a: (Inl e')
    with assms show ?thesis using acquire_frame_no_fault by blast
  next
    case (Inr x)
    obtain fo s1 where x: "x = (fo, s1)" by (cases x)
    show ?thesis
    proof (cases fo)
      case None
      with Inr x have a: "acquire_frame s = Inr (None, s1)" by simp
      from acquire_frame_None [OF a] have "NewPgImp s d = Inr (None, s, d)" by (simp add: NewPgImp_exhausted)
      with Inl show ?thesis by simp
    next
      case (Some f)
      with Inr x have a: "acquire_frame s = Inr (Some f, s1)" by simp
      from acquire_frame_Some [OF assms a] have lt: "f < length (pages s1)" by simp
      show ?thesis
      proof (cases "next_page_id s1 mod num_instances s1 = instance_index s1")
        case True
        from Inl show ?thesis unfolding NewPgImp_acquired [OF a lt True] by simp
      next
        case False
        from Inl show ?thesis unfolding NewPgImp_assert [OF a lt False] by simp
      qed
    qed
  qed
  with Inl show ?thesis by simp
next
  case (Inr x)
  obtain r s' d' where x: "x = (r, s', d')" by (cases x)
  show ?thesis
  proof (cases r)
    case None
    with Inr x have "NewPgImp s d = Inr (None, s', d')" by simp
    from NewPgImp_None [OF this] have "s' = s" by blast
    with Inr x assms show ?thesis by simp
  next
    case (Some pf)
    obtain pid f where pf: "pf = (pid, f)" by (cases pf)
    with Some Inr x have "NewPgImp s d = Inr (Some (pid, f), s', d')" by simp
    from NewPgImp_Some [OF assms this] Inr x show ?thesis by simp
  qed
qed

subsection \<open>Flushing\<close>

lemma FlushPgImp_absent: "page_table s pid = None \<Longrightarrow> FlushPgImp pid s d = Inr (False, s, d)"
  by (simp add: FlushPgImp_def)

lemma FlushPgImp_clean:
  "page_table s pid = Some f \<Longrightarrow> f < length (pages s) \<Longrightarrow> \<not> is_dirty (pages s ! f) \<Longrightarrow>
   FlushPgImp pid s d = Inr (True, s, d)"
  by (simp add: FlushPgImp_def Let_def)

lemma FlushPgImp_dirty:
  "page_table s pid = Some f \<Longrightarrow> f < length (pages s) \<Longrightarrow> is_dirty (pages s ! f) \<Longrightarrow>
   FlushPgImp pid s d =
     Inr (True, s\<lparr>pages := (pages s)[f := (pages s ! f)\<lparr>is_dirty := False\<rparr>]\<rparr>,
          WritePage pid (data (pages s ! f)) d)"
  by (simp add: FlushPgImp_def Let_def)

lemma FlushPgImp_ok:
  assumes "frames_ok s"
  shows "case FlushPgImp pid s d of Inl e \<Rightarrow> False | Inr (r, s', d') \<Rightarrow> frames_ok s'
           \<and> length (pages s') = length (pages s) \<and> next_page_id s' = next_page_id s
           \<and> num_instances s' = num_instances s \<and> instance_index s' = instance_index s"
proof (cases "page_table s pid")
  case None
  with assms show ?thesis by (simp add: FlushPgImp_absent)
next
  case (Some f)
  with assms have lt: "f < length (pages s)" by (simp add: frames_ok_lookup)
  show ?thesis
  proof (cases "is_dirty (pages s ! f)")
    case False
    with assms show ?thesis by (simp add: FlushPgImp_clean [OF Some lt])
  next
    case True
    let ?s' = "s\<lparr>pages := (pages s)[f := (pages s ! f)\<lparr>is_dirty := False\<rparr>]\<rparr>"
    have "frames_ok ?s'" by (rule frames_ok_same_frames [OF assms]) simp_all
    then show ?thesis unfolding FlushPgImp_dirty [OF Some lt True] by simp
  qed
qed

lemma length_flush_frame: "length (fst (flush_frame i x)) = length (fst x)"
  by (cases x) (simp add: flush_frame_def)

lemma length_fold_flush_frame: "length (fst (fold flush_frame is x)) = length (fst x)"
  by (induction "is" arbitrary: x) (simp_all add: length_flush_frame)

lemma FlushAllPgsImp_eq:
  "FlushAllPgsImp s d =
     Inr ((), s\<lparr>pages := fst (fold flush_frame [0..<pool_size s] (pages s, d))\<rparr>,
          snd (fold flush_frame [0..<pool_size s] (pages s, d)))"
  by (simp add: FlushAllPgsImp_def split: prod.split)

lemma FlushAllPgsImp_ok:
  assumes "frames_ok s"
  shows "case FlushAllPgsImp s d of Inl e \<Rightarrow> False | Inr (r, s', d') \<Rightarrow> frames_ok s'
           \<and> length (pages s') = length (pages s) \<and> next_page_id s' = next_page_id s
           \<and> num_instances s' = num_instances s \<and> instance_index s' = instance_index s"
proof -
  let ?s' = "s\<lparr>pages := fst (fold flush_frame [0..<pool_size s] (pages s, d))\<rparr>"
  have "frames_ok ?s'"
    by (rule frames_ok_same_frames [OF assms]) (simp_all add: length_fold_flush_frame)
  then show ?thesis unfolding FlushAllPgsImp_eq by (simp add: length_fold_flush_frame)
qed

subsection \<open>Sequences of operations\<close>

lemma step_ok:
  assumes "frames_ok s"
  shows "case step x s d of Inl e \<Rightarrow> e = AssertionFailure
         | Inr (r, s', d') \<Rightarrow> frames_ok s' \<and> length (pages s') = length (pages s)
           \<and> num_instances s' = num_instances s \<and> instance_index s' = instance_index s"
proof (cases x)
  case (Fetch pid)
  with FetchPgImp_ok [OF assms, of pid d] show ?thesis by (simp split: sum.splits prod.splits)
next
  case New
  with NewPgImp_ok [OF assms, of d] show ?thesis by (simp split: sum.splits prod.splits)
next
  case (UnpinOp pid dirty)
  with UnpinPgImp_ok [OF assms, of pid dirty] show ?thesis by (simp split: sum.splits prod.splits)
next
  case (Delete pid)
  with DeletePgImp_ok [OF assms, of pid d] show ?thesis by (simp split: sum.splits prod.splits)
next
  case (Flush pid)
  with FlushPgImp_ok [OF assms, of pid d] show ?thesis by (simp split: sum.splits prod.splits)
next
  case FlushAll
  with FlushAllPgsImp_ok [OF assms, of d] show ?thesis by (simp split: sum.splits prod.splits)
qed

lemma step_frames_ok:
  assumes "frames_ok s" "step x s d = Inr (r, s', d')"
  shows "frames_ok s'" "length (pages s') = length (pages s)"
    "num_instances s' = num_instances s" "instance_index s' = instance_index s"
  using step_ok [OF assms(1), of x d] assms(2) by simp_all

lemma run_frames_ok:
  "frames_ok s \<Longrightarrow> run xs s d = Inr (rs, s', d') \<Longrightarrow>
   frames_ok s' \<and> length (pages s') = length (pages s)
   \<and> num_instances s' = num_instances s \<and> instance_index s' = instance_index s"
proof (induction xs arbitrary: s d rs)
  case Nil
  then show ?case by simp
next
  case (Cons x xs)
  from Cons.prems(2) obtain r s1 d1 where st: "step x s d = Inr (r, s1, d1)"
    by (cases "step x s d") (auto split: prod.splits)
  with Cons.prems(2) obtain rs1 where rn: "run xs s1 d1 = Inr (rs1, s', d')"
    by (cases "run xs s1 d1") (auto split: prod.splits)
  note s1 = step_frames_ok [OF Cons.prems(1) st]
  from Cons.IH [OF s1(1) rn] s1 show ?case by simp
qed

lemma run_fault:
  "frames_ok s \<Longrightarrow> run xs s d = Inl e \<Longrightarrow> e = AssertionFailure"
proof (induction xs arbitrary: s d)
  case Nil
  then show ?case by simp
next
  case (Cons x xs)
  show ?case
  proof (cases "step x s d")
    case (Inl e')
    with step_ok [OF Cons.prems(1), of x d] Cons.prems(2) show ?thesis by simp
  next
    case (Inr y)
    obtain r s1 d1 where y: "y = (r, s1, d1)" by (cases y)
    with Inr have st: "step x s d = Inr (r, s1, d1)" by simp
    with Cons.prems(2) have "run xs s1 d1 = Inl e" by (simp split: sum.splits prod.splits)
    with Cons.IH [OF step_frames_ok(1) [OF Cons.prems(1) st]] show ?thesis by blast
  qed
qed

lemma frames_ok_new:
  assumes "BufferPoolManagerInstance_new psize n i = Inr s"
  shows "frames_ok s \<and> num_instances s = n \<and> instance_index s = i \<and> next_page_id s = i
         \<and> length (pages s) = psize \<and> 0 < n \<and> i < n"
proof -
  have n: "0 < n" and i: "i < n"
    using assms by (auto simp: BufferPoolManagerInstance_new_def split: if_splits)
  then have "BufferPoolManagerInstance_new psize n i =
     Inr \<lparr>num_instances = n, instance_index = i, next_page_id = i, pages = replicate psize Page_new,
          replacer = LRUReplacer_new psize, free_list = [0..<psize], page_table = Map.empty\<rparr>"
    by (simp add: BufferPoolManagerInstance_new_def)
  with assms have s: "s = \<lparr>num_instances = n, instance_index = i, next_page_id = i, pages = replicate psize Page_new,
          replacer = LRUReplacer_new psize, free_list = [0..<psize], page_table = Map.empty\<rparr>"
    by simp
  have "frames_ok s" unfolding s frames_ok_def
    by (auto simp: replacer_ok_new) (simp_all add: LRUReplacer_new_def)
  then show ?thesis using n i unfolding s by simp
qed

text \<open>
  Every state reached from the constructor satisfies the structural invariant, and the
  only fault a sequence of operations can end in is the assertion of \<^verbatim>\<open>ValidatePageId\<close>:
  no null pointer is dereferenced and no frame outside \<^verbatim>\<open>pages_\<close> is touched.
\<close>

lemma reachable_frames_ok:
  assumes "BufferPoolManagerInstance_new psize n i = Inr s0" "run ops s0 d0 = Inr (rs, s, d)"
  shows "frames_ok s"
  using run_frames_ok [OF _ assms(2)] frames_ok_new [OF assms(1)] by blast

lemma reachable_fault:
  assumes "BufferPoolManagerInstance_new psize n i = Inr s0" "run ops s0 d0 = Inl e"
  shows "e = AssertionFailure"
  using run_fault [OF _ assms(2)] frames_ok_new [OF assms(1)] by blast

section \<open>The LRU replacer: tracking a tracked frame\<close>

text \<open>
  Claim C8. For every frame the replacer already tracks, \<^verbatim>\<open>Unpin\<close> of that frame
  returns at the first test (\<^verbatim>\<open>cache_.count(frame_id) != 0\<close>) and leaves the replacer
  as it was: the same tracked set, the same recency order, the same size. The recency
  of the frame is not refreshed, and a second call changes nothing either.
\<close>

theorem Unpin_tracked_noop:
  "frame_id \<in> cache r \<Longrightarrow>
   (\<exists>r'. Unpin frame_id r = Inr r' \<and> r' = r
      \<and> cache r' = cache r \<and> head_to_tail r' = head_to_tail r \<and> Size r' = Size r
      \<and> Unpin frame_id r' = Inr r')"
  by (simp add: Unpin_def)

theorem Unpin_tracked_noop_witness:
  "1 \<in> cache \<lparr>cache = {1, 2}, capacity = 3, head_to_tail = [2, 1]\<rparr>
   \<and> Unpin 1 \<lparr>cache = {1, 2}, capacity = 3, head_to_tail = [2, 1]\<rparr>
       = Inr \<lparr>cache = {1, 2}, capacity = 3, head_to_tail = [2, 1]\<rparr>"
  using Unpin_tracked_noop [of 1 "\<lparr>cache = {1, 2}, capacity = 3, head_to_tail = [2, 1]\<rparr>"]
  by simp

section \<open>Evaluating the example states\<close>

lemmas eval_defs = NewPgImp_def FetchPgImp_def UnpinPgImp_def DeletePgImp_def FlushPgImp_def
  acquire_frame_def AllocatePage_def ValidatePageId_def Victim_def Pin_def Unpin_def RemoveLast_def
  RemoveOne_def AddToFirst_def write_back_def WritePage_def ReadPage_def DeallocatePage_def
  ResetMemory_def Page_new_def LRUReplacer_new_def INVALID_PAGE_ID_def blank_disk_def
  BufferPoolManagerInstance_new_def int32_def Let_def


lemma pool1_unpinned_dirty_reached:
  "\<exists>s0. BufferPoolManagerInstance_new 1 1 0 = Inr s0
     \<and> run [New, UnpinOp 0 True] s0 blank_disk
         = Inr ([Created (Some (0, 0)), Flag True], pool1_unpinned_dirty, blank_disk)"
  by (simp add: eval_defs pool1_unpinned_dirty_def)

lemma frames_ok_pool1_pinned: "frames_ok pool1_pinned"
  by (simp add: frames_ok_def replacer_ok_def pool1_pinned_def)

lemma frames_ok_pool1_unpinned_dirty: "frames_ok pool1_unpinned_dirty"
  by (simp add: frames_ok_def replacer_ok_def pool1_unpinned_dirty_def)

section \<open>A failed \<^verbatim>\<open>NewPgImp\<close>\<close>

text \<open>
  Claim C3. When the free list is empty and the replacer tracks no frame, \<^verbatim>\<open>NewPgImp\<close>
  returns \<^verbatim>\<open>nullptr\<close> before it reaches \<^verbatim>\<open>AllocatePage\<close>: the instance is returned as
  it was (page table, free list, replacer and \<^verbatim>\<open>next_page_id_\<close>), and so is the disk.
  Conversely \<^verbatim>\<open>nullptr\<close> is returned in that case only.
\<close>

theorem NewPgImp_exhausted_noop:
  "(free_list s = [] \<and> cache (replacer s) = {} \<longrightarrow> NewPgImp s d = Inr (None, s, d))
   \<and> (NewPgImp s d = Inr (None, s', d') \<longrightarrow>
        s' = s \<and> d' = d \<and> page_table s' = page_table s \<and> free_list s' = free_list s
        \<and> replacer s' = replacer s \<and> next_page_id s' = next_page_id s
        \<and> free_list s = [] \<and> cache (replacer s) = {})"
proof (intro conjI impI)
  assume "free_list s = [] \<and> cache (replacer s) = {}"
  then show "NewPgImp s d = Inr (None, s, d)" by (simp add: NewPgImp_exhausted)
next
  assume "NewPgImp s d = Inr (None, s', d')"
  from NewPgImp_None [OF this] show "s' = s" "d' = d" "page_table s' = page_table s"
    "free_list s' = free_list s" "replacer s' = replacer s" "next_page_id s' = next_page_id s"
    "free_list s = []" "cache (replacer s) = {}"
    by simp_all
qed

theorem NewPgImp_exhausted_noop_witness:
  "free_list pool1_pinned = [] \<and> cache (replacer pool1_pinned) = {}
   \<and> NewPgImp pool1_pinned blank_disk = Inr (None, pool1_pinned, blank_disk)
   \<and> next_page_id pool1_pinned = 1"
proof -
  have h: "free_list pool1_pinned = [] \<and> cache (replacer pool1_pinned) = {}"
    by (simp add: pool1_pinned_def)
  from NewPgImp_exhausted_noop [of pool1_pinned blank_disk pool1_pinned blank_disk] h
  have "NewPgImp pool1_pinned blank_disk = Inr (None, pool1_pinned, blank_disk)" by blast
  with h show ?thesis by (simp add: pool1_pinned_def)
qed

section \<open>A rejected \<^verbatim>\<open>UnpinPgImp\<close>\<close>

text \<open>
  Claim C4, as stated, fails: \<^verbatim>\<open>UnpinPgImp\<close> executes
  \<^verbatim>\<open>p->is_dirty_ |= is_dirty\<close> before it tests the pin count. After \<^verbatim>\<open>NewPage\<close> and
  \<^verbatim>\<open>UnpinPage(0, false)\<close> page 0 is clean with pin count 0; \<^verbatim>\<open>UnpinPage(0, true)\<close>
  then returns false and leaves the frame dirty.
\<close>

theorem UnpinPgImp_double_unpin_sets_dirty:
  "\<exists>s0 rs s d s'.
     BufferPoolManagerInstance_new 1 1 0 = Inr s0
     \<and> run [New, UnpinOp 0 False] s0 blank_disk = Inr (rs, s, d)
     \<and> page_table s 0 = Some 0 \<and> pin_count (pages s ! 0) = 0 \<and> \<not> is_dirty (pages s ! 0)
     \<and> UnpinPgImp 0 True s = Inr (False, s')
     \<and> is_dirty (pages s' ! 0) \<and> s' \<noteq> s"
  by (simp add: eval_defs)

text \<open>
  Claim C4, amended. \<^verbatim>\<open>UnpinPgImp\<close> returns false when the page is not resident, with
  the instance unchanged, and returns false when the page is resident with a pin count
  of zero (or less). In that case the pin count is not decremented and the instance is
  unchanged except for the dirty flag of the frame, into which \<^verbatim>\<open>is_dirty\<close> has been
  ORed: with \<^verbatim>\<open>is_dirty = false\<close> nothing changes at all.
\<close>

theorem UnpinPgImp_rejected:
  "(page_table s pid = None \<longrightarrow> UnpinPgImp pid dirty s = Inr (False, s))
   \<and> (page_table s pid = Some f \<and> f < length (pages s) \<and> pin_count (pages s ! f) \<le> 0 \<longrightarrow>
        (\<exists>s'. UnpinPgImp pid dirty s = Inr (False, s')
           \<and> s' = s\<lparr>pages := (pages s)[f := (pages s ! f)\<lparr>is_dirty := is_dirty (pages s ! f) \<or> dirty\<rparr>]\<rparr>
           \<and> pin_count (pages s' ! f) = pin_count (pages s ! f)
           \<and> is_dirty (pages s' ! f) = (is_dirty (pages s ! f) \<or> dirty)
           \<and> data (pages s' ! f) = data (pages s ! f)
           \<and> page_id (pages s' ! f) = page_id (pages s ! f)
           \<and> (\<forall>g. g \<noteq> f \<longrightarrow> pages s' ! g = pages s ! g)
           \<and> replacer s' = replacer s \<and> page_table s' = page_table s
           \<and> free_list s' = free_list s
           \<and> (\<not> dirty \<longrightarrow> s' = s)))"
proof (intro conjI impI)
  assume "page_table s pid = None"
  then show "UnpinPgImp pid dirty s = Inr (False, s)" by (rule UnpinPgImp_absent)
next
  assume h: "page_table s pid = Some f \<and> f < length (pages s) \<and> pin_count (pages s ! f) \<le> 0"
  let ?s' = "s\<lparr>pages := (pages s)[f := (pages s ! f)\<lparr>is_dirty := is_dirty (pages s ! f) \<or> dirty\<rparr>]\<rparr>"
  from h have u: "UnpinPgImp pid dirty s = Inr (False, ?s')"
    by (simp add: UnpinPgImp_not_pinned)
  have "\<not> dirty \<longrightarrow> ?s' = s" by simp
  moreover have "pin_count (pages ?s' ! f) = pin_count (pages s ! f)"
    "is_dirty (pages ?s' ! f) = (is_dirty (pages s ! f) \<or> dirty)"
    "data (pages ?s' ! f) = data (pages s ! f)" "page_id (pages ?s' ! f) = page_id (pages s ! f)"
    using h by simp_all
  moreover have "\<forall>g. g \<noteq> f \<longrightarrow> pages ?s' ! g = pages s ! g" by simp
  moreover have "replacer ?s' = replacer s" "page_table ?s' = page_table s" "free_list ?s' = free_list s"
    by simp_all
  ultimately show "\<exists>s'. UnpinPgImp pid dirty s = Inr (False, s')
           \<and> s' = ?s'
           \<and> pin_count (pages s' ! f) = pin_count (pages s ! f)
           \<and> is_dirty (pages s' ! f) = (is_dirty (pages s ! f) \<or> dirty)
           \<and> data (pages s' ! f) = data (pages s ! f)
           \<and> page_id (pages s' ! f) = page_id (pages s ! f)
           \<and> (\<forall>g. g \<noteq> f \<longrightarrow> pages s' ! g = pages s ! g)
           \<and> replacer s' = replacer s \<and> page_table s' = page_table s
           \<and> free_list s' = free_list s
           \<and> (\<not> dirty \<longrightarrow> s' = s)"
    using u by blast
qed

theorem UnpinPgImp_rejected_witness:
  "page_table pool1_unpinned_dirty 0 = Some 0 \<and> pin_count (pages pool1_unpinned_dirty ! 0) = 0
   \<and> UnpinPgImp 0 False pool1_unpinned_dirty = Inr (False, pool1_unpinned_dirty)
   \<and> UnpinPgImp 7 False pool1_unpinned_dirty = Inr (False, pool1_unpinned_dirty)"
proof -
  have h: "page_table pool1_unpinned_dirty 0 = Some 0 \<and> 0 < length (pages pool1_unpinned_dirty)
           \<and> pin_count (pages pool1_unpinned_dirty ! 0) \<le> 0"
    and n: "page_table pool1_unpinned_dirty 7 = None"
    by (simp_all add: pool1_unpinned_dirty_def)
  from UnpinPgImp_rejected [of pool1_unpinned_dirty 0 False 0] h
  have "UnpinPgImp 0 False pool1_unpinned_dirty = Inr (False, pool1_unpinned_dirty)" by auto
  moreover from UnpinPgImp_rejected [of pool1_unpinned_dirty 7 False 0] n
  have "UnpinPgImp 7 False pool1_unpinned_dirty = Inr (False, pool1_unpinned_dirty)" by blast
  ultimately show ?thesis using h by (simp add: pool1_unpinned_dirty_def)
qed

section \<open>A successful \<^verbatim>\<open>UnpinPgImp\<close>\<close>

text \<open>
  Claim C5. On a resident page with a positive pin count \<^verbatim>\<open>UnpinPgImp\<close> returns true,
  ORs \<^verbatim>\<open>is_dirty\<close> into the dirty flag of the frame (a set flag stays set), decrements
  the pin count by one and, when the count has reached zero, the frame is tracked by
  the replacer. The instance satisfies the structural invariant, as every instance
  reached from the constructor does (\<open>run_frames_ok\<close>, \<open>frames_ok_new\<close>).
\<close>

theorem UnpinPgImp_success:
  assumes "frames_ok s" "page_table s pid = Some f" "0 < pin_count (pages s ! f)"
  shows "\<exists>s'. UnpinPgImp pid dirty s = Inr (True, s')
           \<and> is_dirty (pages s' ! f) = (is_dirty (pages s ! f) \<or> dirty)
           \<and> (is_dirty (pages s ! f) \<longrightarrow> is_dirty (pages s' ! f))
           \<and> pin_count (pages s' ! f) = pin_count (pages s ! f) - 1
           \<and> data (pages s' ! f) = data (pages s ! f)
           \<and> page_id (pages s' ! f) = page_id (pages s ! f)
           \<and> page_table s' = page_table s \<and> free_list s' = free_list s
           \<and> (pin_count (pages s' ! f) = 0 \<longrightarrow>
                 f \<in> cache (replacer s') \<and> f \<in> set (head_to_tail (replacer s'))
                 \<and> cache (replacer s') = insert f (cache (replacer s)))
           \<and> (pin_count (pages s' ! f) \<noteq> 0 \<longrightarrow> replacer s' = replacer s)"
proof -
  from assms(1,2) have lt: "f < length (pages s)" by (rule frames_ok_lookup)
  show ?thesis
  proof (cases "pin_count (pages s ! f) = 1")
    case True
    from frames_ok_Unpin [OF assms(1) lt] obtain r where r: "Unpin f (replacer s) = Inr r"
      "replacer_ok r" "cache r = insert f (cache (replacer s))"
      by blast
    from r(2,3) have "f \<in> set (head_to_tail r)" by (simp add: replacer_ok_def)
    then show ?thesis
      unfolding UnpinPgImp_last_pin [OF assms(2) lt True r(1)] using lt True r(3) by simp
  next
    case False
    with assms(3) have "1 < pin_count (pages s ! f)" by simp
    then show ?thesis
      unfolding UnpinPgImp_still_pinned [OF assms(2) lt \<open>1 < pin_count (pages s ! f)\<close>] using lt by simp
  qed
qed

theorem UnpinPgImp_success_witness:
  "frames_ok pool1_pinned \<and> page_table pool1_pinned 0 = Some 0
   \<and> pin_count (pages pool1_pinned ! 0) = 1
   \<and> (\<exists>s'. UnpinPgImp 0 True pool1_pinned = Inr (True, s') \<and> is_dirty (pages s' ! 0)
         \<and> pin_count (pages s' ! 0) = 0 \<and> 0 \<in> cache (replacer s'))"
proof -
  have h: "page_table pool1_pinned 0 = Some 0" "pin_count (pages pool1_pinned ! 0) = 1"
    by (simp_all add: pool1_pinned_def)
  then have p: "0 < pin_count (pages pool1_pinned ! 0)" by simp
  from UnpinPgImp_success [OF frames_ok_pool1_pinned h(1) p, of True]
  obtain s' where "UnpinPgImp 0 True pool1_pinned = Inr (True, s')"
    "is_dirty (pages s' ! 0) = (is_dirty (pages pool1_pinned ! 0) \<or> True)"
    "pin_count (pages s' ! 0) = pin_count (pages pool1_pinned ! 0) - 1"
    "pin_count (pages s' ! 0) = 0 \<longrightarrow> 0 \<in> cache (replacer s')"
    by blast
  with h frames_ok_pool1_pinned show ?thesis by simp
qed

section \<open>Deleting a dirty page\<close>

lemma DeletePgImp_dirty_unpinned:
  assumes "page_table s pid = Some f" "f < length (pages s)"
    and "pin_count (pages s ! f) = 0"
  shows "\<exists>s' d'. DeletePgImp pid s d = Inr (True, s', d')
           \<and> free_list s' = free_list s @ [f]
           \<and> page_table s' = (page_table s)(pid := None)
           \<and> write_log d' = write_log d \<and> stored d' = stored d
           \<and> deallocated d' = deallocated d @ [pid]
           \<and> data (pages s' ! f) = replicate BUSTUB_PAGE_SIZE 0
           \<and> \<not> is_dirty (pages s' ! f)
           \<and> f \<notin> cache (replacer s')"
proof -
  from assms(3) have np: "\<not> 0 < pin_count (pages s ! f)" by simp
  show ?thesis
    unfolding DeletePgImp_unpinned [OF assms(1,2) np]
    using assms(2) by (simp add: DeallocatePage_def ResetMemory_def Pin_cache)
qed

lemma eviction_writes_back:
  assumes "frames_ok s" "free_list s = []" "Victim (replacer s) = Inr (Some f, r)"
    and "is_dirty (pages s ! f)" "page_table s pid = None"
  shows "\<exists>s'. FetchPgImp pid s d
           = Inr (Some f, s', WritePage (page_id (pages s ! f)) (data (pages s ! f)) d)"
proof -
  have a: "acquire_frame s = Inr (Some f, s\<lparr>replacer := r\<rparr>)"
    using assms(2,3) by (rule acquire_frame_victim)
  from acquire_frame_Some [OF assms(1) a] have lt: "f < length (pages (s\<lparr>replacer := r\<rparr>))" by simp
  show ?thesis
    unfolding FetchPgImp_acquired [OF assms(5) a lt] using assms(4) by (simp add: write_back_def)
qed

lemma eviction_for_new_page_writes_back:
  assumes "frames_ok s" "free_list s = []" "Victim (replacer s) = Inr (Some f, r)"
    and "is_dirty (pages s ! f)" "next_page_id s mod num_instances s = instance_index s"
  shows "\<exists>s'. NewPgImp s d
           = Inr (Some (next_page_id s, f), s',
                  WritePage (page_id (pages s ! f)) (data (pages s ! f)) d)"
proof -
  have a: "acquire_frame s = Inr (Some f, s\<lparr>replacer := r\<rparr>)"
    using assms(2,3) by (rule acquire_frame_victim)
  from acquire_frame_Some [OF assms(1) a] have lt: "f < length (pages (s\<lparr>replacer := r\<rparr>))" by simp
  have v: "next_page_id (s\<lparr>replacer := r\<rparr>) mod num_instances (s\<lparr>replacer := r\<rparr>)
             = instance_index (s\<lparr>replacer := r\<rparr>)"
    using assms(5) by simp
  show ?thesis
    unfolding NewPgImp_acquired [OF a lt v] using assms(4) by (simp add: write_back_def)
qed

text \<open>
  Claim C10. For a resident page with pin count zero whose frame is dirty,
  \<^verbatim>\<open>DeletePgImp\<close> returns true and appends the frame to the free list; the disk's stored
  pages and its log of writes are what they were, so the modified bytes are gone (the
  frame is zeroed and marked clean). The only call to the disk collaborator is the
  notice that the page id may be reclaimed. Evicting the same kind of frame, for a
  fetch or for a new page, writes its bytes under its page id first.
\<close>

theorem DeletePgImp_discards_dirty:
  "(page_table s pid = Some f \<and> f < length (pages s) \<and> pin_count (pages s ! f) = 0
      \<and> is_dirty (pages s ! f) \<longrightarrow>
      (\<exists>s' d'. DeletePgImp pid s d = Inr (True, s', d')
           \<and> free_list s' = free_list s @ [f]
           \<and> page_table s' = (page_table s)(pid := None)
           \<and> write_log d' = write_log d \<and> stored d' = stored d
           \<and> deallocated d' = deallocated d @ [pid]
           \<and> data (pages s' ! f) = replicate BUSTUB_PAGE_SIZE 0
           \<and> \<not> is_dirty (pages s' ! f)
           \<and> f \<notin> cache (replacer s')))
   \<and> (frames_ok s \<and> free_list s = [] \<and> Victim (replacer s) = Inr (Some g, r)
        \<and> is_dirty (pages s ! g) \<and> page_table s pid' = None \<longrightarrow>
        (\<exists>s'. FetchPgImp pid' s d
           = Inr (Some g, s', WritePage (page_id (pages s ! g)) (data (pages s ! g)) d)))
   \<and> (frames_ok s \<and> free_list s = [] \<and> Victim (replacer s) = Inr (Some g, r)
        \<and> is_dirty (pages s ! g) \<and> next_page_id s mod num_instances s = instance_index s \<longrightarrow>
        (\<exists>s'. NewPgImp s d
           = Inr (Some (next_page_id s, g), s',
                  WritePage (page_id (pages s ! g)) (data (pages s ! g)) d)))"
  using DeletePgImp_dirty_unpinned [of s pid f d] eviction_writes_back [of s g r pid' d]
    eviction_for_new_page_writes_back [of s g r d]
  by blast

theorem DeletePgImp_discards_dirty_witness:
  "page_table pool1_unpinned_dirty 0 = Some 0 \<and> is_dirty (pages pool1_unpinned_dirty ! 0)
   \<and> pin_count (pages pool1_unpinned_dirty ! 0) = 0
   \<and> (\<exists>s' d'. DeletePgImp 0 pool1_unpinned_dirty blank_disk = Inr (True, s', d')
         \<and> free_list s' = [0] \<and> write_log d' = [])
   \<and> (\<exists>s'. FetchPgImp 5 pool1_unpinned_dirty blank_disk
         = Inr (Some 0, s', WritePage 0 (replicate BUSTUB_PAGE_SIZE 0) blank_disk))
   \<and> (\<exists>s'. NewPgImp pool1_unpinned_dirty blank_disk
         = Inr (Some (1, 0), s', WritePage 0 (replicate BUSTUB_PAGE_SIZE 0) blank_disk))"
proof -
  have h: "page_table pool1_unpinned_dirty 0 = Some 0 \<and> 0 < length (pages pool1_unpinned_dirty)
    \<and> pin_count (pages pool1_unpinned_dirty ! 0) = 0 \<and> is_dirty (pages pool1_unpinned_dirty ! 0)"
    and e: "free_list pool1_unpinned_dirty = []" "write_log blank_disk = []"
      "page_table pool1_unpinned_dirty 5 = None"
      "next_page_id pool1_unpinned_dirty mod num_instances pool1_unpinned_dirty
         = instance_index pool1_unpinned_dirty"
      "next_page_id pool1_unpinned_dirty = 1"
      "page_id (pages pool1_unpinned_dirty ! 0) = 0"
      "data (pages pool1_unpinned_dirty ! 0) = replicate BUSTUB_PAGE_SIZE 0"
    by (simp_all add: pool1_unpinned_dirty_def blank_disk_def)
  have v: "Victim (replacer pool1_unpinned_dirty)
             = Inr (Some 0, \<lparr>cache = {}, capacity = 1, head_to_tail = []\<rparr>)"
    by (simp add: pool1_unpinned_dirty_def Victim_def RemoveLast_def)
  note t = DeletePgImp_discards_dirty [of pool1_unpinned_dirty 0 0 blank_disk 0
      "\<lparr>cache = {}, capacity = 1, head_to_tail = []\<rparr>" 5]
  from t h obtain s' d' where "DeletePgImp 0 pool1_unpinned_dirty blank_disk = Inr (True, s', d')"
    "free_list s' = free_list pool1_unpinned_dirty @ [0]" "write_log d' = write_log blank_disk"
    by blast
  then have "\<exists>s' d'. DeletePgImp 0 pool1_unpinned_dirty blank_disk = Inr (True, s', d')
         \<and> free_list s' = [0] \<and> write_log d' = []"
    using e by simp
  moreover from t h e v frames_ok_pool1_unpinned_dirty
  have "\<exists>s'. FetchPgImp 5 pool1_unpinned_dirty blank_disk
         = Inr (Some 0, s', WritePage (page_id (pages pool1_unpinned_dirty ! 0))
                 (data (pages pool1_unpinned_dirty ! 0)) blank_disk)"
    by blast
  moreover from t h e v frames_ok_pool1_unpinned_dirty
  have "\<exists>s'. NewPgImp pool1_unpinned_dirty blank_disk
         = Inr (Some (next_page_id pool1_unpinned_dirty, 0), s',
                WritePage (page_id (pages pool1_unpinned_dirty ! 0))
                 (data (pages pool1_unpinned_dirty ! 0)) blank_disk)"
    by blast
  ultimately show ?thesis using h e by simp
qed

section \<open>The evictable set and the page table\<close>

text \<open>
  Claim C1 does not hold of the code. \<^verbatim>\<open>DeletePgImp\<close> leaves the deleted page's id in
  the \<^verbatim>\<open>page_id_\<close> of the frame it puts on the free list, although its comment says
  "reset its metadata"; when \<^verbatim>\<open>NewPgImp\<close> or \<^verbatim>\<open>FetchPgImp\<close> later takes that frame
  from the free list, \<^verbatim>\<open>page_table_.erase(ret->page_id_)\<close> erases the entry of that old
  page id, wherever the page lives by then. With two frames and one instance:
  \<^verbatim>\<open>NewPage\<close> (page 0 in frame 0), \<^verbatim>\<open>UnpinPage(0, false)\<close>, \<^verbatim>\<open>DeletePage(0)\<close> (frame 0
  goes to the back of the free list and keeps \<^verbatim>\<open>page_id_ = 0\<close>), \<^verbatim>\<open>FetchPage(0)\<close>
  (page 0 in frame 1), \<^verbatim>\<open>UnpinPage(0, false)\<close> (frame 1 is tracked), \<^verbatim>\<open>NewPage\<close>
  (frame 0 is taken from the free list and the entry of page 0, which points to frame 1,
  is erased). Frame 1 is now in the replacer's evictable set and no page-table entry
  maps to it.
\<close>

theorem stale_page_id_breaks_evictable_iff_unpinned:
  "\<exists>s0 s d.
     BufferPoolManagerInstance_new 2 1 0 = Inr s0
     \<and> run [New, UnpinOp 0 False, Delete 0, Fetch 0, UnpinOp 0 False, New] s0 blank_disk
         = Inr ([Created (Some (0, 0)), Flag True, Flag True, Frame (Some 1), Flag True,
                 Created (Some (1, 0))], s, d)
     \<and> 1 \<in> cache (replacer s) \<and> pin_count (pages s ! 1) = 0 \<and> page_id (pages s ! 1) = 0
     \<and> page_table s 0 = None \<and> page_table s 1 = Some 0 \<and> \<not> mapped s 1
     \<and> \<not> evictable_iff_unpinned s"
proof -
  let ?ops = "[New, UnpinOp 0 False, Delete 0, Fetch 0, UnpinOp 0 False, New]"
  have "\<exists>s0 s d.
     BufferPoolManagerInstance_new 2 1 0 = Inr s0
     \<and> run ?ops s0 blank_disk
         = Inr ([Created (Some (0, 0)), Flag True, Flag True, Frame (Some 1), Flag True,
                 Created (Some (1, 0))], s, d)
     \<and> 1 \<in> cache (replacer s) \<and> pin_count (pages s ! 1) = 0 \<and> page_id (pages s ! 1) = 0
     \<and> page_table s 0 = None \<and> page_table s 1 = Some 0 \<and> \<not> mapped s 1"
    by (simp add: eval_defs upt_rec mapped_def ran_def)
  then obtain s0 s d where *: "BufferPoolManagerInstance_new 2 1 0 = Inr s0"
     "run ?ops s0 blank_disk
         = Inr ([Created (Some (0, 0)), Flag True, Flag True, Frame (Some 1), Flag True,
                 Created (Some (1, 0))], s, d)"
     "1 \<in> cache (replacer s)" "pin_count (pages s ! 1) = 0" "page_id (pages s ! 1) = 0"
     "page_table s 0 = None" "page_table s 1 = Some 0" "\<not> mapped s 1"
    by blast
  from *(3,8) have "\<not> evictable_iff_unpinned s"
    unfolding evictable_iff_unpinned_def by blast
  with * show ?thesis by blast
qed

section \<open>Fetching a resident page\<close>

subsection \<open>The pin count within 32 bits\<close>


lemma int32_overflow: "int32 (2147483647 + 1) = - 2147483648"
  by (simp add: int32_def)

subsection \<open>Repeated calls of \<^verbatim>\<open>Victim\<close>\<close>




subsection \<open>The page table and the frames' page ids\<close>

text \<open>
  The fourth invariant of the data model is established by the constructor and kept by
  every operation; the stale \<^verbatim>\<open>page_id_\<close> that \<^verbatim>\<open>DeletePgImp\<close> leaves behind belongs to a
  frame without an entry and does not disturb it.
\<close>

lemma map_update_same: "h x = h (xs ! i) \<Longrightarrow> map h (xs[i := x]) = map h xs"
  by (cases "i < length xs") (simp_all add: map_update list_update_same_conv list_update_beyond)

lemma map_nth_eq: "map h xs = map h ys \<Longrightarrow> g < length xs \<Longrightarrow> h (xs ! g) = h (ys ! g)"
  by (metis length_map nth_map)

lemma Inr_state3: "Inr (a, s1, c) = Inr (r, s', d') \<Longrightarrow> s' = s1"
  by simp

lemma Inr_state2: "Inr (a, s1) = Inr (r, s') \<Longrightarrow> s' = s1"
  by simp

lemma table_consistentD:
  "table_consistent s \<Longrightarrow> page_table s q = Some g \<Longrightarrow> page_id (pages s ! g) = q"
  unfolding table_consistent_def by blast


lemma table_consistent_sub:
  assumes "frames_ok s" "table_consistent s"
    and "\<And>q g. page_table s' q = Some g \<Longrightarrow> page_table s q = Some g"
    and "map page_id (pages s') = map page_id (pages s)"
  shows "table_consistent s'"
  unfolding table_consistent_def
proof (intro allI impI)
  fix q g
  assume "page_table s' q = Some g"
  then have e: "page_table s q = Some g" by (rule assms(3))
  with assms(1) have "g < length (pages s)" by (rule frames_ok_lookup)
  then have "g < length (pages s')" using assms(4) by (metis length_map)
  from map_nth_eq [OF assms(4) this] table_consistentD [OF assms(2) e]
  show "page_id (pages s' ! g) = q" by simp
qed

lemma table_consistent_install:
  assumes "table_consistent s" "g < length (pages s)"
    and "page_table s' = ((page_table s)(page_id (pages s ! g) := None))(k \<mapsto> g)"
    and "pages s' = (pages s)[g := p]" "page_id p = k"
  shows "table_consistent s'"
  unfolding table_consistent_def
proof (intro allI impI)
  fix q h
  assume e: "page_table s' q = Some h"
  show "page_id (pages s' ! h) = q"
  proof (cases "q = k")
    case True
    with e assms(3) have "h = g" by simp
    with assms(2,4,5) True show ?thesis by simp
  next
    case False
    with e assms(3) have old: "q \<noteq> page_id (pages s ! g)" and e': "page_table s q = Some h"
      by (auto split: if_splits)
    from table_consistentD [OF assms(1) e'] have pq: "page_id (pages s ! h) = q" .
    with old have "h \<noteq> g" by auto
    with assms(4) pq show ?thesis by simp
  qed
qed

lemma acquire_frame_table_consistent:
  assumes "frames_ok s" "table_consistent s" "acquire_frame s = Inr (Some f, s')"
  shows "table_consistent s'"
proof -
  from acquire_frame_Some [OF assms(1,3)] have "pages s' = pages s" "page_table s' = page_table s"
    by blast+
  with assms(2) show ?thesis unfolding table_consistent_def by simp
qed

lemma NewPgImp_table_consistent:
  assumes "frames_ok s" "table_consistent s" "NewPgImp s d = Inr (r, s', d')"
  shows "table_consistent s'"
proof (cases "acquire_frame s")
  case (Inl e)
  with assms(3) show ?thesis by (simp add: NewPgImp_acquire_fault)
next
  case (Inr x)
  obtain fo s1 where x: "x = (fo, s1)" by (cases x)
  show ?thesis
  proof (cases fo)
    case None
    with Inr x have a: "acquire_frame s = Inr (None, s1)" by simp
    from acquire_frame_None [OF a] have "NewPgImp s d = Inr (None, s, d)" by (simp add: NewPgImp_exhausted)
    with assms(2,3) show ?thesis by simp
  next
    case (Some g)
    with Inr x have a: "acquire_frame s = Inr (Some g, s1)" by simp
    note s1 = acquire_frame_Some [OF assms(1) a]
    from s1 have lt: "g < length (pages s1)" by simp
    have tc1: "table_consistent s1" using assms(1,2) a by (rule acquire_frame_table_consistent)
    show ?thesis
    proof (cases "next_page_id s1 mod num_instances s1 = instance_index s1")
      case False
      from assms(3) show ?thesis unfolding NewPgImp_assert [OF a lt False] by simp
    next
      case True
      let ?s' = "s1\<lparr>next_page_id := next_page_id s1 + num_instances s1,
             page_table := ((page_table s1)(page_id (pages s1 ! g) := None))(next_page_id s1 \<mapsto> g),
             pages := (pages s1)[g := (ResetMemory (pages s1 ! g))\<lparr>page_id := next_page_id s1,
                                        pin_count := 1, is_dirty := False\<rparr>]\<rparr>"
      have "table_consistent ?s'"
        by (rule table_consistent_install [OF tc1 lt, where k = "next_page_id s1"]) (simp, simp, simp)
      moreover from assms(3) [unfolded NewPgImp_acquired [OF a lt True]] have "s' = ?s'" by (rule Inr_state3)
      ultimately show ?thesis by simp
    qed
  qed
qed

lemma FetchPgImp_table_consistent:
  assumes "frames_ok s" "table_consistent s" "FetchPgImp pid s d = Inr (r, s', d')"
  shows "table_consistent s'"
proof (cases "page_table s pid")
  case (Some f)
  with assms(1) have lt: "f < length (pages s)" by (simp add: frames_ok_lookup)
  let ?s' = "s\<lparr>replacer := Pin f (replacer s),
            pages := (pages s)[f := (pages s ! f)\<lparr>pin_count := int32 (pin_count (pages s ! f) + 1)\<rparr>]\<rparr>"
  have "table_consistent ?s'"
    by (rule table_consistent_sub [OF assms(1,2)]) (simp_all add: map_update_same)
  moreover from assms(3) [unfolded FetchPgImp_hit [OF Some lt]] have "s' = ?s'" by (rule Inr_state3)
  ultimately show ?thesis by simp
next
  case None
  show ?thesis
  proof (cases "acquire_frame s")
    case (Inl e)
    with assms(3) None show ?thesis by (simp add: FetchPgImp_acquire_fault)
  next
    case (Inr x)
    obtain fo s1 where x: "x = (fo, s1)" by (cases x)
    show ?thesis
    proof (cases fo)
      case n: None
      with Inr x have a: "acquire_frame s = Inr (None, s1)" by simp
      from acquire_frame_None [OF a] None
      have "FetchPgImp pid s d = Inr (None, s, d)" by (simp add: FetchPgImp_exhausted)
      with assms(2,3) show ?thesis by simp
    next
      case (Some g)
      with Inr x have a: "acquire_frame s = Inr (Some g, s1)" by simp
      note s1 = acquire_frame_Some [OF assms(1) a]
      from s1 have lt: "g < length (pages s1)" by simp
      have tc1: "table_consistent s1" using assms(1,2) a by (rule acquire_frame_table_consistent)
      let ?s' = "s1\<lparr>page_table := ((page_table s1)(page_id (pages s1 ! g) := None))(pid \<mapsto> g),
             pages := (pages s1)[g := (pages s1 ! g)\<lparr>data := ReadPage pid (write_back (pages s1 ! g) d),
                                       pin_count := 1, is_dirty := False, page_id := pid\<rparr>]\<rparr>"
      have "table_consistent ?s'"
        by (rule table_consistent_install [OF tc1 lt, where k = pid]) (simp, simp, simp)
      moreover from assms(3) [unfolded FetchPgImp_acquired [OF None a lt]] have "s' = ?s'" by (rule Inr_state3)
      ultimately show ?thesis by simp
    qed
  qed
qed

lemma DeletePgImp_table_consistent:
  assumes "frames_ok s" "table_consistent s" "DeletePgImp pid s d = Inr (r, s', d')"
  shows "table_consistent s'"
proof (cases "page_table s pid")
  case None
  with assms(2,3) show ?thesis by (simp add: DeletePgImp_absent)
next
  case (Some f)
  with assms(1) have lt: "f < length (pages s)" by (simp add: frames_ok_lookup)
  show ?thesis
  proof (cases "0 < pin_count (pages s ! f)")
    case True
    with assms(2,3) show ?thesis by (simp add: DeletePgImp_pinned [OF Some lt])
  next
    case False
    let ?s' = "s\<lparr>page_table := (page_table s)(pid := None),
            replacer := Pin f (replacer s),
            pages := (pages s)[f := (ResetMemory (pages s ! f))\<lparr>is_dirty := False\<rparr>],
            free_list := free_list s @ [f]\<rparr>"
    have "table_consistent ?s'"
      by (rule table_consistent_sub [OF assms(1,2)])
         (simp_all add: map_update_same ResetMemory_def split: if_splits)
    moreover from assms(3) [unfolded DeletePgImp_unpinned [OF Some lt False]] have "s' = ?s'" by (rule Inr_state3)
    ultimately show ?thesis by simp
  qed
qed

subsection \<open>What one operation does to the frames it does not acquire\<close>


lemma UnpinPgImp_effect:
  assumes "frames_ok s"
  shows "\<exists>s'. UnpinPgImp q b s
             = Inr (case page_table s q of None \<Rightarrow> False | Some g \<Rightarrow> 0 < pin_count (pages s ! g), s')
           \<and> frames_ok s'
           \<and> page_table s' = page_table s
           \<and> map page_id (pages s') = map page_id (pages s)
           \<and> (\<forall>g. page_table s q \<noteq> Some g \<longrightarrow>
                 pages s' ! g = pages s ! g
                 \<and> (g \<in> cache (replacer s') \<longleftrightarrow> g \<in> cache (replacer s)))
           \<and> (\<forall>g. page_table s q = Some g \<longrightarrow>
                 pin_count (pages s' ! g)
                     = (if 0 < pin_count (pages s ! g) then pin_count (pages s ! g) - 1
                        else pin_count (pages s ! g))
                 \<and> (g \<in> cache (replacer s') \<longleftrightarrow>
                      g \<in> cache (replacer s) \<or> pin_count (pages s ! g) = 1))"
proof (cases "page_table s q")
  case None
  with assms show ?thesis by (simp add: UnpinPgImp_absent)
next
  case (Some f)
  with assms have lt: "f < length (pages s)" by (simp add: frames_ok_lookup)
  consider "pin_count (pages s ! f) \<le> 0" | "pin_count (pages s ! f) = 1" | "1 < pin_count (pages s ! f)"
    by linarith
  then show ?thesis
  proof cases
    case 1
    let ?s' = "s\<lparr>pages := (pages s)[f := (pages s ! f)\<lparr>is_dirty := is_dirty (pages s ! f) \<or> b\<rparr>]\<rparr>"
    have "frames_ok ?s'" by (rule frames_ok_same_frames [OF assms]) simp_all
    then show ?thesis
      unfolding UnpinPgImp_not_pinned [OF Some lt 1] using Some lt 1 by (simp add: map_update_same)
  next
    case 3
    let ?s' = "s\<lparr>pages := (pages s)[f := (pages s ! f)\<lparr>is_dirty := is_dirty (pages s ! f) \<or> b,
                                                     pin_count := pin_count (pages s ! f) - 1\<rparr>]\<rparr>"
    have "frames_ok ?s'" by (rule frames_ok_same_frames [OF assms]) simp_all
    then show ?thesis
      unfolding UnpinPgImp_still_pinned [OF Some lt 3] using Some lt 3 by (simp add: map_update_same)
  next
    case 2
    from frames_ok_Unpin [OF assms lt] obtain r where r: "Unpin f (replacer s) = Inr r"
      "replacer_ok r" "capacity r = capacity (replacer s)" "cache r = insert f (cache (replacer s))"
      by blast
    let ?s' = "s\<lparr>pages := (pages s)[f := (pages s ! f)\<lparr>is_dirty := is_dirty (pages s ! f) \<or> b,
                                                     pin_count := 0\<rparr>],
                   replacer := r\<rparr>"
    have "frames_ok ?s'" by (rule frames_ok_tracked [OF assms lt]) (use r in simp_all)
    then show ?thesis
      unfolding UnpinPgImp_last_pin [OF Some lt 2 r(1)] using Some lt 2 r(4)
      by (simp add: map_update_same)
  qed
qed

lemma flush_frame_fields:
  "map page_id (fst (flush_frame i x)) = map page_id (fst x)
   \<and> map pin_count (fst (flush_frame i x)) = map pin_count (fst x)"
  by (cases x) (simp add: flush_frame_def map_update_same)

lemma fold_flush_frame_fields:
  "map page_id (fst (fold flush_frame is x)) = map page_id (fst x)
   \<and> map pin_count (fst (fold flush_frame is x)) = map pin_count (fst x)"
  by (induction "is" arbitrary: x) (simp_all add: flush_frame_fields)

lemma FlushPgImp_effect:
  assumes "frames_ok s"
  shows "\<exists>s' d'. FlushPgImp q s d = Inr (page_table s q \<noteq> None, s', d') \<and> frames_ok s'
           \<and> page_table s' = page_table s
           \<and> map page_id (pages s') = map page_id (pages s)
           \<and> map pin_count (pages s') = map pin_count (pages s)
           \<and> replacer s' = replacer s"
proof (cases "page_table s q")
  case None
  with assms show ?thesis by (simp add: FlushPgImp_absent)
next
  case (Some f)
  with assms have lt: "f < length (pages s)" by (simp add: frames_ok_lookup)
  show ?thesis
  proof (cases "is_dirty (pages s ! f)")
    case False
    with assms Some show ?thesis by (simp add: FlushPgImp_clean [OF Some lt])
  next
    case True
    let ?s' = "s\<lparr>pages := (pages s)[f := (pages s ! f)\<lparr>is_dirty := False\<rparr>]\<rparr>"
    have "frames_ok ?s'" by (rule frames_ok_same_frames [OF assms]) simp_all
    then show ?thesis unfolding FlushPgImp_dirty [OF Some lt True] using Some by (simp add: map_update_same)
  qed
qed

lemma FlushAllPgsImp_effect:
  assumes "frames_ok s"
  shows "\<exists>s' d'. FlushAllPgsImp s d = Inr ((), s', d') \<and> frames_ok s'
           \<and> page_table s' = page_table s
           \<and> map page_id (pages s') = map page_id (pages s)
           \<and> map pin_count (pages s') = map pin_count (pages s)
           \<and> replacer s' = replacer s"
proof -
  let ?s' = "s\<lparr>pages := fst (fold flush_frame [0..<pool_size s] (pages s, d))\<rparr>"
  have "frames_ok ?s'"
    by (rule frames_ok_same_frames [OF assms]) (simp_all add: length_fold_flush_frame)
  then show ?thesis unfolding FlushAllPgsImp_eq by (simp add: fold_flush_frame_fields)
qed

lemma step_table_consistent:
  assumes "frames_ok s" "table_consistent s" "step x s d = Inr (r, s', d')"
  shows "table_consistent s'"
proof (cases x)
  case (Fetch q)
  with assms(3) obtain r0 where "FetchPgImp q s d = Inr (r0, s', d')"
    by (cases "FetchPgImp q s d") (auto split: prod.splits)
  with assms(1,2) show ?thesis by (rule FetchPgImp_table_consistent)
next
  case New
  with assms(3) obtain r0 where "NewPgImp s d = Inr (r0, s', d')"
    by (cases "NewPgImp s d") (auto split: prod.splits)
  with assms(1,2) show ?thesis by (rule NewPgImp_table_consistent)
next
  case (Delete q)
  with assms(3) obtain r0 where "DeletePgImp q s d = Inr (r0, s', d')"
    by (cases "DeletePgImp q s d") (auto split: prod.splits)
  with assms(1,2) show ?thesis by (rule DeletePgImp_table_consistent)
next
  case (UnpinOp q b)
  from UnpinPgImp_effect [OF assms(1), of q b] obtain r1 s1 where u: "UnpinPgImp q b s = Inr (r1, s1)"
    "page_table s1 = page_table s" "map page_id (pages s1) = map page_id (pages s)"
    by blast
  from assms(3) UnpinOp u(1) have "s' = s1" by simp
  moreover have "table_consistent s1" by (rule table_consistent_sub [OF assms(1,2)]) (simp_all add: u)
  ultimately show ?thesis by simp
next
  case (Flush q)
  from FlushPgImp_effect [OF assms(1), of q d] obtain r1 s1 d1 where u: "FlushPgImp q s d = Inr (r1, s1, d1)"
    "page_table s1 = page_table s" "map page_id (pages s1) = map page_id (pages s)"
    by blast
  from assms(3) Flush u(1) have "s' = s1" by simp
  moreover have "table_consistent s1" by (rule table_consistent_sub [OF assms(1,2)]) (simp_all add: u)
  ultimately show ?thesis by simp
next
  case FlushAll
  from FlushAllPgsImp_effect [OF assms(1), of d] obtain r1 s1 d1 where u: "FlushAllPgsImp s d = Inr (r1, s1, d1)"
    "page_table s1 = page_table s" "map page_id (pages s1) = map page_id (pages s)"
    by blast
  from assms(3) FlushAll u(1) have "s' = s1" by simp
  moreover have "table_consistent s1" by (rule table_consistent_sub [OF assms(1,2)]) (simp_all add: u)
  ultimately show ?thesis by simp
qed

lemma run_table_consistent:
  "frames_ok s \<Longrightarrow> table_consistent s \<Longrightarrow> run xs s d = Inr (rs, s', d') \<Longrightarrow> table_consistent s'"
proof (induction xs arbitrary: s d rs)
  case Nil
  then show ?case by simp
next
  case (Cons x xs)
  from Cons.prems(3) obtain r s1 d1 where st: "step x s d = Inr (r, s1, d1)"
    by (cases "step x s d") (auto split: prod.splits)
  with Cons.prems(3) obtain rs1 where rn: "run xs s1 d1 = Inr (rs1, s', d')"
    by (cases "run xs s1 d1") (auto split: prod.splits)
  from step_frames_ok(1) [OF Cons.prems(1) st] step_table_consistent [OF Cons.prems(1,2) st]
  show ?case using Cons.IH rn by blast
qed

lemma reachable_table_consistent:
  assumes "BufferPoolManagerInstance_new psize n i = Inr s0" "run ops s0 d0 = Inr (rs, s, d)"
  shows "table_consistent s"
proof -
  from assms(1) have "page_table s0 = Map.empty"
    by (auto simp: BufferPoolManagerInstance_new_def split: if_splits)
  then have "table_consistent s0" by (simp add: table_consistent_def)
  with frames_ok_new [OF assms(1)] assms(2) show ?thesis using run_table_consistent by blast
qed

subsection \<open>Counting pins along a sequence\<close>



lemma pins_after_Cons: "pins_after pid c (x # ops) = pins_after pid (pins_after pid c [x]) ops"
  by (cases x) simp_all

lemma pins_after_append:
  "pins_after pid c (xs @ ys) = pins_after pid (pins_after pid c xs) ys"
proof (induction xs arbitrary: c)
  case Nil
  then show ?case by simp
next
  case (Cons x xs)
  have "pins_after pid c ((x # xs) @ ys) = pins_after pid (pins_after pid c [x]) (xs @ ys)"
    using pins_after_Cons [of pid c x "xs @ ys"] by simp
  also have "\<dots> = pins_after pid (pins_after pid (pins_after pid c [x]) xs) ys"
    by (rule Cons.IH)
  also have "pins_after pid (pins_after pid c [x]) xs = pins_after pid c (x # xs)"
    by (rule pins_after_Cons [symmetric])
  finally show ?case .
qed

lemma pins_after_Fetches: "pins_after pid c (replicate k (Fetch pid)) = c + k"
  by (induction k arbitrary: c) simp_all

lemma pins_after_Unpins: "pins_after pid c (replicate j (UnpinOp pid b)) = c - j"
  by (induction j arbitrary: c) simp_all

lemma pins_after_block:
  "pins_after pid c (replicate k (Fetch pid) @ replicate j (UnpinOp pid b)) = c + k - j"
  by (simp add: pins_after_append pins_after_Fetches pins_after_Unpins)

















section \<open>Page ids and shards\<close>

lemma created_member: "Created (Some (pid, f)) \<in> set rs \<Longrightarrow> pid \<in> set (created rs)"
  by (induction rs rule: created.induct) auto

lemma step_allocation:
  assumes "frames_ok s" "step x s d = Inr (r, s', d')"
  shows "created [r] = [] \<and> next_page_id s' = next_page_id s
         \<or> created [r] = [next_page_id s] \<and> next_page_id s mod num_instances s = instance_index s
           \<and> next_page_id s' = next_page_id s + num_instances s"
proof (cases x)
  case (Fetch pid)
  with FetchPgImp_ok [OF assms(1), of pid d] assms(2) show ?thesis
    by (auto split: sum.splits prod.splits)
next
  case New
  with assms(2) obtain res where n: "NewPgImp s d = Inr (res, s', d')" and r: "r = Created res"
    by (auto split: sum.splits prod.splits)
  show ?thesis
  proof (cases res)
    case None
    with n have "s' = s" using NewPgImp_None by blast
    with None r show ?thesis by simp
  next
    case (Some pf)
    obtain pid f where pf: "pf = (pid, f)" by (cases pf)
    from n Some pf have "NewPgImp s d = Inr (Some (pid, f), s', d')" by simp
    from NewPgImp_Some [OF assms(1) this]
    have "pid = next_page_id s" "pid mod num_instances s = instance_index s"
      "next_page_id s' = next_page_id s + num_instances s"
      by blast+
    with Some pf r show ?thesis by simp
  qed
next
  case (UnpinOp pid dirty)
  with UnpinPgImp_ok [OF assms(1), of pid dirty] assms(2) show ?thesis
    by (auto split: sum.splits prod.splits)
next
  case (Delete pid)
  with DeletePgImp_ok [OF assms(1), of pid d] assms(2) show ?thesis
    by (auto split: sum.splits prod.splits)
next
  case (Flush pid)
  with FlushPgImp_ok [OF assms(1), of pid d] assms(2) show ?thesis
    by (auto split: sum.splits prod.splits)
next
  case FlushAll
  with FlushAllPgsImp_ok [OF assms(1), of d] assms(2) show ?thesis
    by (auto split: sum.splits prod.splits)
qed

lemma created_Cons: "created (r # rs) = created [r] @ created rs"
proof (cases r)
  case (Created x)
  then show ?thesis
  proof (cases x)
    case None
    with Created show ?thesis by simp
  next
    case (Some pf)
    with Created show ?thesis by (cases pf) simp
  qed
qed simp_all

lemma map_upt_shift:
  "map (\<lambda>k. (a::'a::len word) + n + of_nat k * n) [0..<m] = map (\<lambda>k. a + of_nat k * n) [1..<Suc m]"
proof -
  have "map (\<lambda>k. a + of_nat k * n) [1..<Suc m] = map (\<lambda>k. a + of_nat k * n) (map Suc [0..<m])"
    by (simp only: map_Suc_upt One_nat_def)
  also have "\<dots> = map (\<lambda>k. a + n + of_nat k * n) [0..<m]"
    by (simp add: algebra_simps)
  finally show ?thesis by simp
qed

lemma run_created:
  "frames_ok s \<Longrightarrow> run xs s d = Inr (rs, s', d') \<Longrightarrow>
   (\<forall>pid \<in> set (created rs). pid mod num_instances s = instance_index s)
   \<and> created rs = map (\<lambda>k. next_page_id s + of_nat k * num_instances s) [0..<length (created rs)]
   \<and> next_page_id s' = next_page_id s + of_nat (length (created rs)) * num_instances s"
proof (induction xs arbitrary: s d rs)
  case Nil
  then show ?case by simp
next
  case (Cons x xs)
  from Cons.prems(2) obtain r s1 d1 where st: "step x s d = Inr (r, s1, d1)"
    by (cases "step x s d") (auto split: prod.splits)
  with Cons.prems(2) obtain rs1 where rn: "run xs s1 d1 = Inr (rs1, s', d')" and rs: "rs = r # rs1"
    by (cases "run xs s1 d1") (auto split: prod.splits)
  note s1 = step_frames_ok [OF Cons.prems(1) st]
  note ih = Cons.IH [OF s1(1) rn, unfolded s1]
  from ih have ih1: "\<forall>pid \<in> set (created rs1). pid mod num_instances s = instance_index s"
    and ih2: "created rs1 = map (\<lambda>k. next_page_id s1 + of_nat k * num_instances s) [0..<length (created rs1)]"
    and ih3: "next_page_id s' = next_page_id s1 + of_nat (length (created rs1)) * num_instances s"
    by blast+
  have c: "created rs = created [r] @ created rs1" unfolding rs by (rule created_Cons)
  from step_allocation [OF Cons.prems(1) st]
  consider (same) "created [r] = []" "next_page_id s1 = next_page_id s"
    | (alloc) "created [r] = [next_page_id s]" "next_page_id s mod num_instances s = instance_index s"
        "next_page_id s1 = next_page_id s + num_instances s"
    by blast
  then show ?case
  proof cases
    case same
    with c have "created rs = created rs1" by simp
    with ih1 ih2 ih3 same(2) show ?thesis by simp
  next
    case alloc
    from c alloc(1) have cr: "created rs = next_page_id s # created rs1" by simp
    let ?m = "length (created rs1)"
    have "created rs1 = map (\<lambda>k. next_page_id s + of_nat k * num_instances s) [1..<Suc ?m]"
      using ih2 unfolding alloc(3) map_upt_shift .
    then have "next_page_id s # created rs1
                 = map (\<lambda>k. next_page_id s + of_nat k * num_instances s) (0 # [1..<Suc ?m])"
      by simp
    also have "0 # [1..<Suc ?m] = [0..<Suc ?m]" by (simp add: upt_rec)
    finally have e: "created rs = map (\<lambda>k. next_page_id s + of_nat k * num_instances s) [0..<length (created rs)]"
      unfolding cr by simp
    have "next_page_id s' = next_page_id s + of_nat (length (created rs)) * num_instances s"
      using ih3 unfolding cr alloc(3) by (simp add: algebra_simps)
    moreover have "\<forall>pid \<in> set (created rs). pid mod num_instances s = instance_index s"
      unfolding cr using ih1 alloc(2) by simp
    ultimately show ?thesis using e by blast
  qed
qed

text \<open>
  Claim C9. In every sequence of operations on an instance built by the constructor
  for shard \<open>i\<close> of \<open>n\<close>, every page id returned by \<^verbatim>\<open>NewPage\<close> has remainder \<open>i\<close>
  modulo \<open>n\<close> (the unsigned remainder that \<^verbatim>\<open>ValidatePageId\<close> computes). The counter
  starts at \<open>i\<close> and every allocation adds \<open>n\<close>: the ids returned are \<open>i\<close>, \<open>i + n\<close>,
  \<open>i + 2 n\<close>, ... in 32-bit arithmetic, whatever the number of allocations. An id
  is read as the unsigned 32-bit value that \<^verbatim>\<open>page_id % num_instances_\<close> converts it to.
\<close>

theorem allocated_ids_in_shard:
  assumes "BufferPoolManagerInstance_new psize n i = Inr s0" "run ops s0 d0 = Inr (rs, s, d)"
  shows "(\<forall>pid f. Created (Some (pid, f)) \<in> set rs \<longrightarrow> unat pid mod unat n = unat i)
         \<and> next_page_id s0 = i
         \<and> created rs = map (\<lambda>k. i + of_nat k * n) [0..<length (created rs)]
         \<and> next_page_id s = i + of_nat (length (created rs)) * n"
proof -
  from frames_ok_new [OF assms(1)] have ok: "frames_ok s0" and n: "num_instances s0 = n"
    and i: "instance_index s0 = i" "next_page_id s0 = i"
    by blast+
  note r = run_created [OF ok assms(2), unfolded n i]
  have "unat pid mod unat n = unat i" if "Created (Some (pid, f)) \<in> set rs" for pid f
  proof -
    from that have "pid \<in> set (created rs)" by (rule created_member)
    with r have "pid mod n = i" by blast
    then have "unat (pid mod n) = unat i" by simp
    then show ?thesis by (simp add: unat_mod)
  qed
  with r i(2) show ?thesis by blast
qed

theorem allocated_ids_in_shard_witness:
  "\<exists>s0 s d. BufferPoolManagerInstance_new 2 3 1 = Inr s0
     \<and> run [New, New] s0 blank_disk = Inr ([Created (Some (1, 0)), Created (Some (4, 1))], s, d)
     \<and> unat (1 :: 32 word) mod unat (3 :: 32 word) = unat (1 :: 32 word)
     \<and> unat (4 :: 32 word) mod unat (3 :: 32 word) = unat (1 :: 32 word)
     \<and> next_page_id s = 7"
proof -
  have "\<exists>s0 s d. BufferPoolManagerInstance_new 2 3 1 = Inr s0
     \<and> run [New, New] s0 blank_disk = Inr ([Created (Some (1, 0)), Created (Some (4, 1))], s, d)"
    by (simp add: eval_defs upt_rec)
  then obtain s0 s d where n: "BufferPoolManagerInstance_new 2 3 1 = Inr s0"
    and r: "run [New, New] s0 blank_disk = Inr ([Created (Some (1, 0)), Created (Some (4, 1))], s, d)"
    by blast
  note t = allocated_ids_in_shard [OF n r]
  from t have "unat (1 :: 32 word) mod unat (3 :: 32 word) = unat (1 :: 32 word)"
    "unat (4 :: 32 word) mod unat (3 :: 32 word) = unat (1 :: 32 word)"
    by simp_all
  moreover from t have "next_page_id s = 1 + of_nat (length (created [Created (Some (1, 0)), Created (Some (4, 1))])) * 3"
    by blast
  then have "next_page_id s = 7" by simp
  ultimately show ?thesis using n r by blast
qed

text \<open>
  As long as \<open>i + k n\<close> stays below \<open>2 ^ 32\<close> the check of \<^verbatim>\<open>ValidatePageId\<close> holds
  by arithmetic and the allocation returns. Once the counter has wrapped around, the
  assertion is what keeps an id of another shard from being returned: with \<open>n = 3\<close>
  and \<open>i = 0\<close> the counter is 2 after 1431655766 allocations and \<^verbatim>\<open>AllocatePage\<close>
  aborts.
\<close>

lemma unat_seed_plus:
  fixes i n :: "32 word"
  assumes "unat i + k * unat n < 2 ^ 32"
  shows "unat (i + of_nat k * n) = unat i + k * unat n"
proof -
  have k: "k * unat n < 2 ^ 32" using assms by simp
  have "unat (of_nat k * n :: 32 word) = k * unat n"
  proof (cases "n = 0")
    case True
    then show ?thesis by simp
  next
    case False
    then have "0 < unat n" by (simp add: unat_gt_0)
    with k have "k < 2 ^ 32"
      by (metis (no_types, lifting) One_nat_def Suc_leI le_trans linorder_not_less mult.right_neutral mult_le_mono2)
    then have "unat (of_nat k :: 32 word) = k" by (simp add: of_nat_inverse)
    with k show ?thesis by (simp add: unat_mult_lem [THEN iffD1])
  qed
  with assms show ?thesis by (simp add: unat_add_lem [THEN iffD1])
qed

lemma seed_plus_mod:
  fixes i n :: "32 word"
  assumes "i < n" "unat i + k * unat n < 2 ^ 32"
  shows "(i + of_nat k * n) mod n = i"
proof -
  from assms(1) have lt: "unat i < unat n" by (simp add: word_less_nat_alt)
  have "unat ((i + of_nat k * n) mod n) = (unat i + k * unat n) mod unat n"
    by (simp add: unat_mod unat_seed_plus [OF assms(2)])
  also have "\<dots> = unat i" using lt by simp
  finally show ?thesis by (rule word_unat_eq_iff [THEN iffD2])
qed

lemma AllocatePage_before_wrap:
  assumes "instance_index s < num_instances s"
    and "next_page_id s = instance_index s + of_nat k * num_instances s"
    and "unat (instance_index s) + k * unat (num_instances s) < 2 ^ 32"
  shows "AllocatePage s = Inr (instance_index s + of_nat k * num_instances s,
                              s\<lparr>next_page_id := instance_index s + of_nat (Suc k) * num_instances s\<rparr>)"
proof -
  have "next_page_id s mod num_instances s = instance_index s"
    unfolding assms(2) using assms(1,3) by (rule seed_plus_mod)
  from AllocatePage_valid [OF this] show ?thesis
    unfolding assms(2) by (simp add: algebra_simps)
qed

lemma AllocatePage_after_wrap:
  assumes "num_instances s = 3" "instance_index s = 0"
    and "next_page_id s = instance_index s + of_nat 1431655766 * num_instances s"
  shows "next_page_id s = 2" "AllocatePage s = Inl AssertionFailure"
proof -
  show n: "next_page_id s = 2" unfolding assms by simp
  have "next_page_id s mod num_instances s \<noteq> instance_index s" unfolding n assms(1,2) by simp
  then show "AllocatePage s = Inl AssertionFailure" by (rule AllocatePage_invalid)
qed

section \<open>The parallel manager: creating pages round robin\<close>

lemma exhausted_NewPgImp: "exhausted b \<Longrightarrow> NewPgImp b d = Inr (None, b, d)"
  by (simp add: exhausted_def NewPgImp_exhausted)

lemma NewPgImp_None_exhausted:
  "NewPgImp b d = Inr (None, b', d') \<Longrightarrow> exhausted b \<and> b' = b \<and> d' = d"
  using NewPgImp_None [of b d b' d'] by (simp add: exhausted_def)

lemma NewPgImp_loop_exhausted:
  assumes "next_index m < length (instances m)" "exhausted (instances m ! next_index m)"
  shows "NewPgImp_loop (Suc k) m d
           = NewPgImp_loop k (m\<lparr>next_index := (next_index m + 1) mod num_instance m\<rparr>) d"
  using assms by (simp add: exhausted_NewPgImp)

lemma NewPgImp_loop_created:
  assumes "next_index m < length (instances m)"
    "NewPgImp (instances m ! next_index m) d = Inr (Some pg, b', d')"
  shows "NewPgImp_loop (Suc k) m d
           = Inr (Some pg,
                  m\<lparr>instances := (instances m)[next_index m := b'],
                    next_index := (next_index m + 1) mod num_instance m\<rparr>, d')"
  using assms by simp

lemma NewPgImp_loop_fault:
  assumes "next_index m < length (instances m)"
    "NewPgImp (instances m ! next_index m) d = Inl e"
  shows "NewPgImp_loop (Suc k) m d = Inl e"
  using assms by simp

lemma NewPgImp_loop_skip:
  assumes "length (instances m) = num_instance m" "next_index m < num_instance m" "a \<le> k"
    and "\<forall>j<a. exhausted (instances m ! ((next_index m + j) mod num_instance m))"
  shows "NewPgImp_loop k m d
           = NewPgImp_loop (k - a) (m\<lparr>next_index := (next_index m + a) mod num_instance m\<rparr>) d"
  using assms
proof (induction a arbitrary: k m)
  case 0
  then show ?case by simp
next
  case (Suc a)
  from Suc.prems(3) obtain k' where k: "k = Suc k'" by (cases k) simp_all
  let ?N = "num_instance m" and ?c = "next_index m"
  let ?m1 = "m\<lparr>next_index := (?c + 1) mod ?N\<rparr>"
  from Suc.prems(4) have "exhausted (instances m ! ((?c + 0) mod ?N))" by blast
  with Suc.prems(2) have e0: "exhausted (instances m ! ?c)" by simp
  have lt: "?c < length (instances m)" using Suc.prems(1,2) by simp
  have step: "NewPgImp_loop k m d = NewPgImp_loop k' ?m1 d"
    unfolding k using lt e0 by (rule NewPgImp_loop_exhausted)
  have sh: "(Suc ?c mod ?N + j) mod ?N = Suc (?c + j) mod ?N" for j
    by presburger
  have ex: "\<forall>j<a. exhausted (instances ?m1 ! ((next_index ?m1 + j) mod num_instance ?m1))"
  proof (intro allI impI)
    fix j assume "j < a"
    then have "Suc j < Suc a" by simp
    with Suc.prems(4) have "exhausted (instances m ! ((?c + Suc j) mod ?N))" by blast
    then show "exhausted (instances ?m1 ! ((next_index ?m1 + j) mod num_instance ?m1))"
      by (simp add: sh)
  qed
  have m2: "?m1\<lparr>next_index := (next_index ?m1 + a) mod num_instance ?m1\<rparr>
               = m\<lparr>next_index := (?c + Suc a) mod ?N\<rparr>"
    by (simp add: sh)
  have ka: "k' - a = k - Suc a" using k by simp
  note step
  also have "NewPgImp_loop k' ?m1 d
          = NewPgImp_loop (k' - a) (?m1\<lparr>next_index := (next_index ?m1 + a) mod num_instance ?m1\<rparr>) d"
    by (rule Suc.IH) (use Suc.prems k ex in simp_all)
  finally show ?case unfolding m2 ka .
qed

lemma NewPgImp_loop_None:
  assumes "length (instances m) = num_instance m" "next_index m < num_instance m"
    and "NewPgImp_loop k m d = Inr (None, m', d')"
  shows "\<forall>j<k. exhausted (instances m ! ((next_index m + j) mod num_instance m))"
  using assms
proof (induction k arbitrary: m)
  case 0
  then show ?case by simp
next
  case (Suc k)
  let ?N = "num_instance m" and ?c = "next_index m"
  let ?m1 = "m\<lparr>next_index := (?c + 1) mod ?N\<rparr>"
  have lt: "?c < length (instances m)" using Suc.prems(1,2) by simp
  have e0: "exhausted (instances m ! ?c)"
  proof (cases "NewPgImp (instances m ! ?c) d")
    case (Inl e)
    with Suc.prems(3) lt show ?thesis by (simp add: NewPgImp_loop_fault)
  next
    case (Inr x)
    obtain page b' d1 where x: "x = (page, b', d1)" by (cases x)
    show ?thesis
    proof (cases page)
      case None
      with Inr x show ?thesis using NewPgImp_None_exhausted by blast
    next
      case (Some pg)
      with Inr x have "NewPgImp (instances m ! ?c) d = Inr (Some pg, b', d1)" by simp
      from NewPgImp_loop_created [OF lt this, of k] Suc.prems(3) show ?thesis by simp
    qed
  qed
  have "NewPgImp_loop (Suc k) m d = NewPgImp_loop k ?m1 d"
    using lt e0 by (rule NewPgImp_loop_exhausted)
  with Suc.prems(3) have r: "NewPgImp_loop k ?m1 d = Inr (None, m', d')" by simp
  have ih: "\<forall>j<k. exhausted (instances ?m1 ! ((next_index ?m1 + j) mod num_instance ?m1))"
    by (rule Suc.IH [OF _ _ r]) (use Suc.prems in simp_all)
  have sh: "(Suc ?c mod ?N + j) mod ?N = Suc (?c + j) mod ?N" for j
    by presburger
  show ?case
  proof (intro allI impI)
    fix j assume j: "j < Suc k"
    show "exhausted (instances m ! ((?c + j) mod ?N))"
    proof (cases j)
      case 0
      with e0 Suc.prems(2) show ?thesis by simp
    next
      case (Suc j')
      with j have "j' < k" by simp
      with ih have "exhausted (instances ?m1 ! ((next_index ?m1 + j') mod num_instance ?m1))" by blast
      then show ?thesis unfolding Suc by (simp add: sh)
    qed
  qed
qed

lemma offsets_cover:
  assumes "c < (N::nat)" "i < N"
  shows "\<exists>j<N. (c + j) mod N = i"
proof (cases "c \<le> i")
  case True
  then have "(c + (i - c)) mod N = i" using assms by simp
  moreover have "i - c < N" using assms by simp
  ultimately show ?thesis by blast
next
  case False
  then have "(c + (N + i - c)) mod N = i" using assms by simp
  moreover have "N + i - c < N" using assms False by simp
  ultimately show ?thesis by blast
qed

lemma offsets_eq:
  assumes "x \<le> y" "y < (N::nat)" "(c + x) mod N = (c + y) mod N"
  shows "x = y"
proof -
  have "c + x \<le> c + y" using assms(1) by simp
  with assms(3) [symmetric] have "N dvd (c + y) - (c + x)" by (simp only: mod_eq_dvd_iff_nat)
  then have d: "N dvd y - x" by simp
  have "y - x < N" using assms(2) by simp
  with d have "y - x = 0" using nat_dvd_not_less by blast
  with assms(1) show ?thesis by simp
qed

lemma offsets_inj:
  assumes "c < (N::nat)"
  shows "inj_on (\<lambda>j. (c + j) mod N) {..<N}"
proof (rule inj_onI)
  fix x y
  assume x: "x \<in> {..<N}" and y: "y \<in> {..<N}" and e: "(c + x) mod N = (c + y) mod N"
  show "x = y"
  proof (cases "x \<le> y")
    case True
    with y e show ?thesis using offsets_eq [of x y N c] by simp
  next
    case False
    with x e show ?thesis using offsets_eq [of y x N c] by simp
  qed
qed

lemma NewPgImp_loop_numeral:
  "NewPgImp_loop (numeral n) m d = NewPgImp_loop (Suc (pred_numeral n)) m d"
  by (simp only: numeral_eq_Suc)

lemmas parallel_eval_defs = ParallelBufferPoolManager_new_def Parallel_NewPgImp_def
  shard0_full_def shard1_full_def shard1_deleted_def two_shards_full_def two_shards_half_def

lemma two_shards_full_reached:
  "\<exists>m0 m1. ParallelBufferPoolManager_new 2 1 = Inr m0
     \<and> Parallel_NewPgImp m0 blank_disk = Inr (Some (0, 0), m1, blank_disk) \<and> next_index m1 = 1
     \<and> Parallel_NewPgImp m1 blank_disk = Inr (Some (1, 0), two_shards_full, blank_disk)"
  by (simp add: parallel_eval_defs eval_defs upt_rec numeral_2_eq_2)

lemma shard1_deleted_reached:
  "run [UnpinOp 1 False, Delete 1] shard1_full blank_disk
     = Inr ([Flag True, Flag True], shard1_deleted, DeallocatePage 1 blank_disk)"
  by (simp add: parallel_eval_defs eval_defs)

lemma exhausted_shards: "exhausted shard0_full" "exhausted shard1_full"
  by (simp_all add: exhausted_def shard0_full_def shard1_full_def)

lemma frames_ok_shards: "frames_ok shard0_full" "frames_ok shard1_full"
  by (simp_all add: frames_ok_def replacer_ok_def shard0_full_def shard1_full_def)

text \<open>
  What the loop of \<^verbatim>\<open>NewPgImp\<close> does. With \<open>N\<close> instances and the cursor at \<open>c\<close>, it
  tries the instances \<open>c\<close>, \<open>c + 1\<close>, ... (mod \<open>N\<close>) in turn and steps the cursor by one
  (mod \<open>N\<close>) after each instance it has tried, whether that instance produced a page or
  not. If the first \<open>a < N\<close> of them cannot acquire a frame and the next one creates a
  page, the call returns that page, only that instance has changed, and the cursor is
  \<open>(c + a + 1) mod N\<close>. If all \<open>N\<close> cannot acquire a frame the call returns \<^verbatim>\<open>nullptr\<close>
  and the manager is as before, the cursor at \<open>c\<close> again; and \<^verbatim>\<open>nullptr\<close> is returned in
  that case only.
\<close>

lemma Parallel_NewPgImp_round_robin:
  assumes "length (instances m) = num_instance m" "next_index m < num_instance m"
  shows "inj_on (\<lambda>j. (next_index m + j) mod num_instance m) {..<num_instance m}
   \<and> ((\<forall>i<num_instance m. exhausted (instances m ! i)) \<longrightarrow>
        Parallel_NewPgImp m d = Inr (None, m, d))
   \<and> (\<forall>a pg b' d'.
         a < num_instance m
         \<and> (\<forall>j<a. exhausted (instances m ! ((next_index m + j) mod num_instance m)))
         \<and> NewPgImp (instances m ! ((next_index m + a) mod num_instance m)) d = Inr (Some pg, b', d')
         \<longrightarrow> Parallel_NewPgImp m d
               = Inr (Some pg,
                      m\<lparr>instances := (instances m)[(next_index m + a) mod num_instance m := b'],
                        next_index := (next_index m + a + 1) mod num_instance m\<rparr>,
                      d'))
   \<and> (\<forall>m' d'. Parallel_NewPgImp m d = Inr (None, m', d') \<longrightarrow>
         (\<forall>i<num_instance m. exhausted (instances m ! i)) \<and> m' = m \<and> d' = d)"
proof -
  let ?N = "num_instance m" and ?c = "next_index m"
  have all: "Parallel_NewPgImp m d = Inr (None, m, d)" if "\<forall>i<?N. exhausted (instances m ! i)"
  proof -
    from that assms(2) have "\<forall>j<?N. exhausted (instances m ! ((?c + j) mod ?N))" by simp
    from NewPgImp_loop_skip [OF assms le_refl this, of d]
    show ?thesis using assms(2) by (simp add: Parallel_NewPgImp_def)
  qed
  have first: "Parallel_NewPgImp m d
               = Inr (Some pg, m\<lparr>instances := (instances m)[(?c + a) mod ?N := b'],
                                 next_index := (?c + a + 1) mod ?N\<rparr>, d')"
    if a: "a < ?N" and ex: "\<forall>j<a. exhausted (instances m ! ((?c + j) mod ?N))"
      and cr: "NewPgImp (instances m ! ((?c + a) mod ?N)) d = Inr (Some pg, b', d')"
    for a pg b' d'
  proof -
    let ?m2 = "m\<lparr>next_index := (?c + a) mod ?N\<rparr>"
    from a have le: "a \<le> ?N" by simp
    from a obtain k where k: "?N - a = Suc k" by (cases "?N - a") simp_all
    have lt: "next_index ?m2 < length (instances ?m2)" using assms by simp
    have cr2: "NewPgImp (instances ?m2 ! next_index ?m2) d = Inr (Some pg, b', d')" using cr by simp
    have "Parallel_NewPgImp m d = NewPgImp_loop (Suc k) ?m2 d"
      unfolding Parallel_NewPgImp_def NewPgImp_loop_skip [OF assms le ex, of d] k ..
    also note NewPgImp_loop_created [OF lt cr2, of k]
    also have "?m2\<lparr>instances := (instances ?m2)[next_index ?m2 := b'],
                   next_index := (next_index ?m2 + 1) mod num_instance ?m2\<rparr>
               = m\<lparr>instances := (instances m)[(?c + a) mod ?N := b'],
                   next_index := (?c + a + 1) mod ?N\<rparr>"
      by (simp add: mod_Suc_eq)
    finally show ?thesis .
  qed
  have none: "(\<forall>i<?N. exhausted (instances m ! i)) \<and> m' = m \<and> d' = d"
    if r: "Parallel_NewPgImp m d = Inr (None, m', d')" for m' d'
  proof -
    from r have "NewPgImp_loop ?N m d = Inr (None, m', d')" by (simp add: Parallel_NewPgImp_def)
    from NewPgImp_loop_None [OF assms this]
    have off: "\<forall>j<?N. exhausted (instances m ! ((?c + j) mod ?N))" .
    have e: "\<forall>i<?N. exhausted (instances m ! i)"
    proof (intro allI impI)
      fix i assume "i < ?N"
      from offsets_cover [OF assms(2) this] obtain j where "j < ?N" "(?c + j) mod ?N = i" by blast
      with off show "exhausted (instances m ! i)" by auto
    qed
    from all [OF e] r have "Inr (None, m, d) = (Inr (None, m', d')
       :: fault + ((page_id_t \<times> frame_id_t) option \<times> ParallelBufferPoolManager \<times> DiskManager))"
      by metis
    then have "m' = m" "d' = d" by blast+
    with e show ?thesis by blast
  qed
  from offsets_inj [OF assms(2)] all first none show ?thesis by blast
qed

lemma Parallel_NewPgImp_round_robin_example:
  "next_index two_shards_full = 0 \<and> next_index two_shards_half = 0
   \<and> Parallel_NewPgImp two_shards_full blank_disk = Inr (None, two_shards_full, blank_disk)
   \<and> (\<exists>m'. Parallel_NewPgImp two_shards_half blank_disk = Inr (Some (3, 0), m', blank_disk)
         \<and> next_index m' = 0)"
proof -
  have f: "length (instances two_shards_full) = num_instance two_shards_full"
    "next_index two_shards_full < num_instance two_shards_full"
    and h: "length (instances two_shards_half) = num_instance two_shards_half"
    "next_index two_shards_half < num_instance two_shards_half"
    by (simp_all add: two_shards_full_def two_shards_half_def)
  have e: "\<forall>i<num_instance two_shards_full. exhausted (instances two_shards_full ! i)"
    using exhausted_shards by (simp add: two_shards_full_def less_Suc_eq numeral_2_eq_2)
  from Parallel_NewPgImp_round_robin [OF f, of blank_disk] e
  have a: "Parallel_NewPgImp two_shards_full blank_disk = Inr (None, two_shards_full, blank_disk)"
    by blast
  let ?b = "\<lparr>num_instances = 2, instance_index = 1, next_page_id = 5,
      pages = [\<lparr>data = replicate BUSTUB_PAGE_SIZE 0, page_id = 3, pin_count = 1, is_dirty = False\<rparr>],
      replacer = \<lparr>cache = {}, capacity = 1, head_to_tail = []\<rparr>,
      free_list = [], page_table = [3 \<mapsto> 0]\<rparr>"
  have c: "(1::nat) < num_instance two_shards_half
     \<and> (\<forall>j<1. exhausted (instances two_shards_half ! ((next_index two_shards_half + j) mod num_instance two_shards_half)))
     \<and> NewPgImp (instances two_shards_half ! ((next_index two_shards_half + 1) mod num_instance two_shards_half)) blank_disk
         = Inr (Some (3, 0), ?b, blank_disk)"
    using exhausted_shards(1) by (simp add: two_shards_half_def shard1_deleted_def eval_defs)
  note t = Parallel_NewPgImp_round_robin [OF h, of blank_disk]
  note t3 = t [THEN conjunct2, THEN conjunct2, THEN conjunct1, rule_format, OF c]
  have "next_index (two_shards_half\<lparr>instances := (instances two_shards_half)
           [(next_index two_shards_half + 1) mod num_instance two_shards_half := ?b],
          next_index := (next_index two_shards_half + 1 + 1) mod num_instance two_shards_half\<rparr>) = 0"
    by (simp add: two_shards_half_def)
  with t3 have b: "\<exists>m'. Parallel_NewPgImp two_shards_half blank_disk = Inr (Some (3, 0), m', blank_disk)
         \<and> next_index m' = 0"
    by blast
  from a b show ?thesis by (simp add: two_shards_full_def two_shards_half_def)
qed

text \<open>
  The instances on which one call of \<^verbatim>\<open>NewPgImp\<close> calls \<^verbatim>\<open>NewPage\<close> are the cursor's
  instance and its successors (mod \<open>N\<close>), no more than \<open>N\<close> of them and none of them
  twice.
\<close>

lemma NewPgImp_tried_rotation:
  assumes "length (instances m) = num_instance m" "next_index m < num_instance m"
  shows "\<exists>a\<le>k. NewPgImp_tried k m d
                 = map (\<lambda>j. (next_index m + j) mod num_instance m) [0..<a]"
  using assms
proof (induction k arbitrary: m d)
  case 0
  then show ?case by simp
next
  case (Suc k)
  let ?N = "num_instance m" and ?c = "next_index m"
  have lt: "?c < length (instances m)" using Suc.prems by simp
  have one: "[?c] = map (\<lambda>j. (?c + j) mod ?N) [0..<1]" using Suc.prems(2) by simp
  show ?case
  proof (cases "NewPgImp (instances m ! ?c) d")
    case (Inl e)
    with lt have "NewPgImp_tried (Suc k) m d = [?c]" by simp
    with one show ?thesis by (intro exI [of _ 1]) simp
  next
    case (Inr x)
    obtain page bfi d' where x: "x = (page, bfi, d')" by (cases x)
    show ?thesis
    proof (cases page)
      case (Some pg)
      with Inr x lt have "NewPgImp_tried (Suc k) m d = [?c]" by simp
      with one show ?thesis by (intro exI [of _ 1]) simp
    next
      case None
      let ?m' = "m\<lparr>instances := (instances m)[?c := bfi], next_index := (?c + 1) mod ?N\<rparr>"
      from None Inr x lt
      have t: "NewPgImp_tried (Suc k) m d = ?c # NewPgImp_tried k ?m' d'" by simp
      have "length (instances ?m') = num_instance ?m'" "next_index ?m' < num_instance ?m'"
        using Suc.prems by simp_all
      from Suc.IH [OF this, of d'] obtain a where a: "a \<le> k"
        "NewPgImp_tried k ?m' d' = map (\<lambda>j. (next_index ?m' + j) mod num_instance ?m') [0..<a]"
        by blast
      have sh: "(Suc ?c mod ?N + j) mod ?N = (?c + Suc j) mod ?N" for j
        by presburger
      have "?c # NewPgImp_tried k ?m' d' = map (\<lambda>j. (?c + j) mod ?N) [0..<Suc a]"
        unfolding a(2) upt_conv_Cons [OF zero_less_Suc] map_Suc_upt [symmetric]
        using Suc.prems(2) by (simp add: sh)
      with t a(1) show ?thesis by (intro exI [of _ "Suc a"]) simp
    qed
  qed
qed

lemma Parallel_NewPgImp_tried_once:
  assumes "length (instances m) = num_instance m" "next_index m < num_instance m"
  shows "distinct (NewPgImp_tried (num_instance m) m d)
         \<and> length (NewPgImp_tried (num_instance m) m d) \<le> num_instance m
         \<and> (\<forall>i. i < length (NewPgImp_tried (num_instance m) m d) \<longrightarrow>
               NewPgImp_tried (num_instance m) m d ! i = (next_index m + i) mod num_instance m)"
proof -
  let ?N = "num_instance m"
  from NewPgImp_tried_rotation [OF assms, of ?N d] obtain a where a: "a \<le> ?N"
    "NewPgImp_tried ?N m d = map (\<lambda>j. (next_index m + j) mod ?N) [0..<a]"
    by blast
  have "inj_on (\<lambda>j. (next_index m + j) mod ?N) (set [0..<a])"
    by (rule inj_on_subset [OF offsets_inj [OF assms(2)]]) (use a(1) in auto)
  then have "distinct (NewPgImp_tried ?N m d)" unfolding a(2) by (simp add: distinct_map)
  then show ?thesis using a(1) unfolding a(2) by simp
qed

text \<open>
  The cursor a call leaves behind is the cursor it found, moved on by the number of
  instances it tried.
\<close>

lemma NewPgImp_loop_cursor:
  assumes "length (instances m) = num_instance m" "next_index m < num_instance m"
    and "NewPgImp_loop k m d = Inr (r, m', d')"
  shows "next_index m'
           = (next_index m + length (NewPgImp_tried k m d)) mod num_instance m
         \<and> num_instance m' = num_instance m"
  using assms
proof (induction k arbitrary: m d)
  case 0
  then show ?case by auto
next
  case (Suc k)
  let ?N = "num_instance m" and ?c = "next_index m"
  have lt: "?c < length (instances m)" using Suc.prems by simp
  show ?case
  proof (cases "NewPgImp (instances m ! ?c) d")
    case (Inl e)
    with Suc.prems(3) lt show ?thesis by (simp add: NewPgImp_loop_fault)
  next
    case (Inr x)
    obtain page bfi d1 where x: "x = (page, bfi, d1)" by (cases x)
    show ?thesis
    proof (cases page)
      case (Some pg)
      with Inr x have cr: "NewPgImp (instances m ! ?c) d = Inr (Some pg, bfi, d1)" by simp
      from Suc.prems(3) [unfolded NewPgImp_loop_created [OF lt cr]]
      have "m' = m\<lparr>instances := (instances m)[?c := bfi], next_index := (?c + 1) mod ?N\<rparr>"
        by simp
      moreover from cr lt have "NewPgImp_tried (Suc k) m d = [?c]" by simp
      ultimately show ?thesis by simp
    next
      case None
      let ?m1 = "m\<lparr>instances := (instances m)[?c := bfi], next_index := (?c + 1) mod ?N\<rparr>"
      from None Inr x have n: "NewPgImp (instances m ! ?c) d = Inr (None, bfi, d1)" by simp
      with lt have t: "NewPgImp_tried (Suc k) m d = ?c # NewPgImp_tried k ?m1 d1" by simp
      from n lt have "NewPgImp_loop (Suc k) m d = NewPgImp_loop k ?m1 d1" by simp
      with Suc.prems(3) have r: "NewPgImp_loop k ?m1 d1 = Inr (r, m', d')" by simp
      have "length (instances ?m1) = num_instance ?m1" "next_index ?m1 < num_instance ?m1"
        using Suc.prems by simp_all
      from Suc.IH [OF this r]
      have ih: "next_index m' = ((?c + 1) mod ?N + length (NewPgImp_tried k ?m1 d1)) mod ?N"
        and ni: "num_instance m' = ?N"
        by simp_all
      have sh: "(Suc ?c mod ?N + j) mod ?N = (?c + Suc j) mod ?N" for j
        by presburger
      from ih have "next_index m' = (?c + Suc (length (NewPgImp_tried k ?m1 d1))) mod ?N"
        by (simp add: sh)
      with ni show ?thesis unfolding t by simp
    qed
  qed
qed

text \<open>
  Claim C6 does not hold of the code, and the code does not do what its own comment
  asks for. The comment in \<^verbatim>\<open>NewPgImp\<close> reads "Bump the starting index (mod number of
  instances) to start search at a different BPMI each time this function is called".
  The code steps \<^verbatim>\<open>next_index_\<close> inside the loop, once for every instance tried and not
  once for every call, so a call that tries all \<open>N\<close> instances leaves the cursor where
  it was, and the next call starts its search at the same instance. With two shards of
  one frame each: the first two calls of \<^verbatim>\<open>NewPage\<close> create pages 0 and 1 and leave the
  cursor at 0. The third call tries both shards and fails; the cursor is 0 before and
  after it. Page 1 is then unpinned and deleted in shard 1, the instance that
  \<^verbatim>\<open>page_id % 2\<close> routes it to. The fourth call starts at shard 0 again, fails there,
  creates page 3 in shard 1, the last instance it tries, and leaves the cursor at 0
  once more.
\<close>

theorem Parallel_NewPgImp_cursor_not_bumped:
  "\<exists>m0 m1 m2 b1 m3.
     ParallelBufferPoolManager_new 2 1 = Inr m0
     \<and> Parallel_NewPgImp m0 blank_disk = Inr (Some (0, 0), m1, blank_disk)
     \<and> Parallel_NewPgImp m1 blank_disk = Inr (Some (1, 0), m2, blank_disk)
     \<and> num_instance m2 = 2 \<and> next_index m2 = 0
     \<and> Parallel_NewPgImp m2 blank_disk = Inr (None, m2, blank_disk)
     \<and> next_index m2 \<noteq> (next_index m2 + 1) mod num_instance m2
     \<and> run [UnpinOp 1 False, Delete 1] (instances m2 ! 1) blank_disk
         = Inr ([Flag True, Flag True], b1, DeallocatePage 1 blank_disk)
     \<and> next_index (m2\<lparr>instances := (instances m2)[1 := b1]\<rparr>) = 0
     \<and> Parallel_NewPgImp (m2\<lparr>instances := (instances m2)[1 := b1]\<rparr>) (DeallocatePage 1 blank_disk)
         = Inr (Some (3, 0), m3, DeallocatePage 1 blank_disk)
     \<and> next_index m3 = 0"
  by (simp add: parallel_eval_defs eval_defs upt_rec NewPgImp_loop_numeral)

section \<open>The parallel manager: pool size\<close>

lemma push_instances_Inr:
  "push_instances psize n is acc = Inr bs \<Longrightarrow>
   length bs = length acc + length is
   \<and> (\<forall>b \<in> set bs. b \<in> set acc \<or> frames_ok b \<and> pool_size b = psize)"
proof (induction "is" arbitrary: acc)
  case Nil
  then show ?case by simp
next
  case (Cons i rest)
  from Cons.prems obtain b where b: "BufferPoolManagerInstance_new psize (of_nat n) (of_nat i) = Inr b"
    and r: "push_instances psize n rest (acc @ [b]) = Inr bs"
    by (cases "BufferPoolManagerInstance_new psize (of_nat n) (of_nat i)") simp_all
  from frames_ok_new [OF b] have "frames_ok b" "pool_size b = psize"
    by (simp_all add: pool_size_def)
  with Cons.IH [OF r] show ?case by auto
qed

lemma shards_ok_new:
  assumes "ParallelBufferPoolManager_new n psize = Inr m"
  shows "shards_ok m \<and> num_instance m = n \<and> each_pool_size m = psize \<and> next_index m = 0"
proof -
  from assms obtain bs where bs: "push_instances psize n [0..<n] [] = Inr bs"
    and m: "m = \<lparr>instances = bs, next_index = 0, each_pool_size = psize, num_instance = n\<rparr>"
    by (cases "push_instances psize n [0..<n] []") (simp_all add: ParallelBufferPoolManager_new_def)
  from push_instances_Inr [OF bs] have "length bs = n" "\<forall>b \<in> set bs. frames_ok b \<and> pool_size b = psize"
    by simp_all
  then show ?thesis unfolding m shards_ok_def by auto
qed

lemma sum_list_pool_size:
  "\<forall>b \<in> set bs. pool_size b = p \<Longrightarrow> sum_list (map pool_size bs) = length bs * p"
  by (induction bs) simp_all

lemma NewPgImp_loop_shards_ok:
  "shards_ok m \<Longrightarrow> NewPgImp_loop k m d = Inr (r, m', d') \<Longrightarrow> shards_ok m'"
proof (induction k arbitrary: m d)
  case 0
  then show ?case by simp
next
  case (Suc k)
  let ?c = "next_index m"
  from Suc.prems(2) have lt: "?c < length (instances m)"
    by (cases "?c < length (instances m)") simp_all
  then have mem: "instances m ! ?c \<in> set (instances m)" by simp
  with Suc.prems(1) have ok: "frames_ok (instances m ! ?c)"
    and ps: "pool_size (instances m ! ?c) = each_pool_size m"
    unfolding shards_ok_def by blast+
  from Suc.prems(1) lt have N: "length (instances m) = num_instance m" "0 < num_instance m"
    unfolding shards_ok_def by auto
  show ?case
  proof (cases "NewPgImp (instances m ! ?c) d")
    case (Inl e)
    with Suc.prems(2) lt show ?thesis by (simp add: NewPgImp_loop_fault)
  next
    case (Inr x)
    obtain page b' d1 where x: "x = (page, b', d1)" by (cases x)
    from NewPgImp_ok [OF ok, of d] Inr x have b': "frames_ok b'" "length (pages b') = length (pages (instances m ! ?c))"
      by simp_all
    let ?m1 = "m\<lparr>instances := (instances m)[?c := b'], next_index := (?c + 1) mod num_instance m\<rparr>"
    have "\<forall>b \<in> set ((instances m)[?c := b']). frames_ok b \<and> pool_size b = each_pool_size m"
    proof
      fix b assume "b \<in> set ((instances m)[?c := b'])"
      then have "b = b' \<or> b \<in> set (instances m)" using set_update_subset_insert by fastforce
      then show "frames_ok b \<and> pool_size b = each_pool_size m"
        using b' ps Suc.prems(1) unfolding shards_ok_def pool_size_def by auto
    qed
    then have ok1: "shards_ok ?m1" using N unfolding shards_ok_def by simp
    show ?thesis
    proof (cases page)
      case None
      with Inr x Suc.prems(2) lt have "NewPgImp_loop k ?m1 d1 = Inr (r, m', d')" by simp
      from Suc.IH [OF ok1 this] show ?thesis .
    next
      case (Some pg)
      with Inr x Suc.prems(2) lt have "m' = ?m1" by simp
      with ok1 show ?thesis by simp
    qed
  qed
qed

lemma Parallel_NewPgImp_shards_ok:
  "shards_ok m \<Longrightarrow> Parallel_NewPgImp m d = Inr (r, m', d') \<Longrightarrow>
   shards_ok m' \<and> length (instances m') = length (instances m)
   \<and> each_pool_size m' = each_pool_size m \<and> num_instance m' = num_instance m"
proof -
  assume ok: "shards_ok m" and r: "Parallel_NewPgImp m d = Inr (r, m', d')"
  have keep: "NewPgImp_loop k m d = Inr (r, m', d') \<Longrightarrow>
       each_pool_size m' = each_pool_size m \<and> num_instance m' = num_instance m" for k m d
  proof (induction k arbitrary: m d)
    case 0
    then show ?case by simp
  next
    case (Suc k)
    from Suc.prems have lt: "next_index m < length (instances m)"
      by (cases "next_index m < length (instances m)") simp_all
    show ?case
    proof (cases "NewPgImp (instances m ! next_index m) d")
      case (Inl e)
      with Suc.prems lt show ?thesis by simp
    next
      case (Inr x)
      obtain page b' d1 where x: "x = (page, b', d1)" by (cases x)
      show ?thesis
      proof (cases page)
        case None
        with Inr x Suc.prems lt
        have "NewPgImp_loop k (m\<lparr>instances := (instances m)[next_index m := b'],
                 next_index := (next_index m + 1) mod num_instance m\<rparr>) d1 = Inr (r, m', d')"
          by simp
        from Suc.IH [OF this] show ?thesis by simp
      next
        case (Some pg)
        with Inr x Suc.prems lt show ?thesis by auto
      qed
    qed
  qed
  from r have l: "NewPgImp_loop (num_instance m) m d = Inr (r, m', d')"
    by (simp add: Parallel_NewPgImp_def)
  from NewPgImp_loop_shards_ok [OF ok l] have ok': "shards_ok m'" .
  from keep [OF l] have k: "each_pool_size m' = each_pool_size m" "num_instance m' = num_instance m"
    by blast+
  with ok ok' have "length (instances m') = length (instances m)" unfolding shards_ok_def by simp
  with ok' k show ?thesis by blast
qed

text \<open>
  Claim C7. \<^verbatim>\<open>GetPoolSize\<close> of the parallel manager returns
  \<^verbatim>\<open>instances_.size() * each_pool_size_\<close>, which is the sum of the pool sizes of its
  instances: for the manager the constructor builds from \<open>n\<close> and \<open>psize\<close> it is
  \<open>n * psize\<close>, and it stays the sum in every state that satisfies the invariant
  \<open>shards_ok\<close>, which \<^verbatim>\<open>NewPgImp\<close> preserves.
\<close>

theorem GetPoolSize_sum_of_shards:
  "(shards_ok m \<longrightarrow>
      GetPoolSize m = sum_list (map pool_size (instances m))
      \<and> GetPoolSize m = num_instance m * each_pool_size m)
   \<and> (ParallelBufferPoolManager_new n psize = Inr m \<longrightarrow>
        shards_ok m \<and> length (instances m) = n \<and> (\<forall>b \<in> set (instances m). pool_size b = psize)
        \<and> GetPoolSize m = n * psize)"
proof (intro conjI impI)
  assume ok: "shards_ok m"
  then have "\<forall>b \<in> set (instances m). pool_size b = each_pool_size m" unfolding shards_ok_def by blast
  from sum_list_pool_size [OF this]
  show "GetPoolSize m = sum_list (map pool_size (instances m))" by (simp add: GetPoolSize_def)
  from ok show "GetPoolSize m = num_instance m * each_pool_size m"
    unfolding shards_ok_def GetPoolSize_def by simp
next
  assume n: "ParallelBufferPoolManager_new n psize = Inr m"
  note s = shards_ok_new [OF n]
  from s show "shards_ok m" by blast
  from s show "length (instances m) = n" unfolding shards_ok_def by simp
  from s show "\<forall>b \<in> set (instances m). pool_size b = psize" unfolding shards_ok_def by simp
  from s show "GetPoolSize m = n * psize" unfolding shards_ok_def GetPoolSize_def by simp
qed

theorem GetPoolSize_sum_of_shards_witness:
  "shards_ok two_shards_full \<and> GetPoolSize two_shards_full = 2
   \<and> sum_list (map pool_size (instances two_shards_full)) = 2
   \<and> (\<exists>m0. ParallelBufferPoolManager_new 3 4 = Inr m0 \<and> GetPoolSize m0 = 12)"
proof -
  have ok: "shards_ok two_shards_full"
    using frames_ok_shards
    by (simp add: shards_ok_def two_shards_full_def pool_size_def)
       (simp add: shard0_full_def shard1_full_def)
  note t = GetPoolSize_sum_of_shards [of two_shards_full 2 1]
  from t ok have "GetPoolSize two_shards_full = sum_list (map pool_size (instances two_shards_full))"
    "GetPoolSize two_shards_full = num_instance two_shards_full * each_pool_size two_shards_full"
    by blast+
  then have a: "GetPoolSize two_shards_full = 2" "sum_list (map pool_size (instances two_shards_full)) = 2"
    by (simp_all add: two_shards_full_def)
  have "\<exists>m0. ParallelBufferPoolManager_new 3 4 = Inr m0"
    by (simp add: ParallelBufferPoolManager_new_def BufferPoolManagerInstance_new_def upt_rec)
  then obtain m0 where m0: "ParallelBufferPoolManager_new 3 4 = Inr m0" by blast
  from GetPoolSize_sum_of_shards [of m0 3 4] m0 have "GetPoolSize m0 = 3 * 4" by blast
  with m0 have "\<exists>m0. ParallelBufferPoolManager_new 3 4 = Inr m0 \<and> GetPoolSize m0 = 12" by simp
  with ok a show ?thesis by blast
qed

section \<open>The earlier revision compared\<close>

text \<open>
  Where the earlier revision departs from the statements proved above: a fetch of a
  resident page pins nothing; a failed \<^verbatim>\<open>NewPgImp\<close> has already advanced the counter;
  \<^verbatim>\<open>UnpinPgImp\<close> assigns the dirty flag, so \<^verbatim>\<open>false\<close> clears it; \<^verbatim>\<open>DeletePgImp\<close>
  leaves the frame in the replacer; \<^verbatim>\<open>GetPoolSize\<close> counts the instances; and the
  parallel \<^verbatim>\<open>NewPgImp\<close> does not try the instances before the cursor.
\<close>

lemma FetchPgImp_earlier_does_not_pin:
  "page_table s pid = Some f \<Longrightarrow> f < length (pages s) \<Longrightarrow>
   FetchPgImp_earlier pid s d = Inr (Some f, s, d)"
  by (simp add: FetchPgImp_earlier_def)

lemma NewPgImp_earlier_consumes_id:
  "free_list s = [] \<Longrightarrow> cache (replacer s) = {} \<Longrightarrow>
   next_page_id s mod num_instances s = instance_index s \<Longrightarrow>
   NewPgImp_earlier s d = Inr (None, s\<lparr>next_page_id := next_page_id s + num_instances s\<rparr>, d)"
  by (simp add: NewPgImp_earlier_def AllocatePage_valid tryGetPageFromFreeListOrLRU_def Size_def)

lemma UnpinPgImp_earlier_clears_dirty:
  "page_table s pid = Some f \<Longrightarrow> f < length (pages s) \<Longrightarrow> 1 < pin_count (pages s ! f) \<Longrightarrow>
   UnpinPgImp_earlier pid False s =
     Inr (True, s\<lparr>pages := (pages s)[f := (pages s ! f)\<lparr>is_dirty := False,
                                                     pin_count := pin_count (pages s ! f) - 1\<rparr>]\<rparr>)"
  by (simp add: UnpinPgImp_earlier_def Let_def)

lemma DeletePgImp_earlier_keeps_tracking:
  "page_table s pid = Some f \<Longrightarrow> f < length (pages s) \<Longrightarrow> pin_count (pages s ! f) = 0 \<Longrightarrow>
   \<exists>s' d'. DeletePgImp_earlier pid s d = Inr (True, s', d') \<and> replacer s' = replacer s
      \<and> free_list s' = free_list s @ [f]"
  by (simp add: DeletePgImp_earlier_def Let_def)

lemma GetPoolSize_earlier_counts_instances:
  "GetPoolSize_earlier \<lparr>instances_earlier = [b0, b1], startIdx = 0\<rparr> = 2"
  by (simp add: GetPoolSize_earlier_def)

lemma Parallel_NewPgImp_earlier_does_not_wrap:
  "startIdx m = 1 \<Longrightarrow> instances_earlier m = [b0, b1] \<Longrightarrow> free_list b1 = [] \<Longrightarrow>
   cache (replacer b1) = {} \<Longrightarrow> next_page_id b1 mod num_instances b1 = instance_index b1 \<Longrightarrow>
   \<exists>m'. Parallel_NewPgImp_earlier m d = Inr (None, m', d) \<and> startIdx m' = 1
      \<and> instances_earlier m' ! 0 = b0"
  by (simp add: Parallel_NewPgImp_earlier_def NewPgImp_earlier_consumes_id upt_rec)

end
